theory Spec2Isabelle
  imports Main "HOL-Library.Char_ord" "HOL-Library.List_Lexorder"
begin

section \<open>Rule-based atom typing (tools/parameterize/atomtyper.py)\<close>

text \<open>
  A shallow embedding of the atom typer. Python objects live in an explicit store:
  an atom is an address (a natural number), the store maps addresses to atom records,
  and the module-level dictionaries of the source are fields of one world record that
  every operation takes and returns. An exception is the left summand of a result.
  Warnings issued through \<open>warn\<close> are appended to a log in the world. A dictionary
  that the source iterates over is a list of pairs in the order of insertion, and a set
  it iterates over is a list without repetition; the general statements below hold
  for every order.
\<close>

subsection \<open>Data\<close>

datatype error =
  AttributeError | KeyError | IndexError | AssertionError | TypeError
  | NetworkXPointlessConcept

text \<open>A rule identifier as a rule author writes it: a number or a string.\<close>

datatype rule_id = IntId int | StrId string

text \<open>The argument of a whitelist or blacklist decorator and of \<open>check_atom\<close>:
  one identifier, or a list, tuple or set of them.\<close>

datatype id_arg = One rule_id | Many "rule_id list"

text \<open>
  The value stored under \<open>extras['atomtype']\<close>: a one-element list holding the
  resolved type, or the comma-joined string of the candidates that remain.
\<close>

datatype atomtype_value = TypeList "string list" | TypeStr string

text \<open>
  Modelled from the spec: the class of atoms is not part of the sources at hand. An atom
  has a kind, its incident bonds (each given by the address of the atom at the other
  end, so the neighbours of an atom are the other ends of its bonds), and an extras
  dictionary; a key of extras that is absent is \<open>None\<close>, and reading it through
  \<open>atom.whitelist\<close> or \<open>atom.blacklist\<close> raises an attribute error.
\<close>

record atom =
  kind :: string
  bonds :: "nat list"
  whitelist :: "string list option"
  blacklist :: "string list option"
  atomtype :: "atomtype_value option"

text \<open>The decorator objects. An element type is a string and a count is a natural number,
  as the rules of a catalogue write them.\<close>

datatype decorator =
  Element string
  | NeighborCount nat
  | NeighborsExactly string nat
  | NeighborsAtLeast string nat
  | NeighborsAtMost string nat
  | Whitelist id_arg
  | Blacklist id_arg

text \<open>
  A rule function is a stack of decorators, outermost first, around a body. The bodies
  belong to the force-field catalogue, which is outside the sources at hand: a body is
  taken as a parameter, a predicate that reads the store and the address of the atom.
\<close>

record rule =
  decorators :: "decorator list"
  body :: "(nat \<Rightarrow> atom) \<Rightarrow> nat \<Rightarrow> bool"

datatype issue = Unconnected | NotDAG | MultipleSinks

datatype warning =
  NoRuleForNeighbors nat string
  | NoRuleForKind string
  | MaxIterations
  | CheckTopology nat string "string list"
  | NoElementType string
  | NoNeighborCount string
  | RuleGraph issue "string option" "string list" "string list option"

text \<open>
  The world: the store of atoms, the three module-level dictionaries
  (\<open>rule_number_to_rule\<close> in insertion order, the two-level \<open>rule_map\<close>, whose keys
  may be \<open>None\<close>, and \<open>neighbor_types_map\<close>, keyed by the atom object), and the
  warnings issued so far.
\<close>

record world =
  heap :: "nat \<Rightarrow> atom"
  rule_number_to_rule :: "(string \<times> rule) list"
  rule_map :: "string option \<Rightarrow> (nat option \<Rightarrow> string list option) option"
  neighbor_types_map :: "nat \<Rightarrow> (string \<Rightarrow> nat option) option"
  warnings :: "warning list"

text \<open>
  Modelled from the spec: the compound class is not part of the sources at hand.
  \<open>yield_atoms\<close> is the sequence of all atoms of a compound, ports included (the typing
  loop tests for kind G on what it yields); the \<open>atoms\<close> property lists the real atoms,
  those whose kind is not G.
\<close>

record compound =
  yield_atoms :: "nat list"

definition atoms_of :: "(nat \<Rightarrow> atom) \<Rightarrow> compound \<Rightarrow> nat list" where
  "atoms_of h c = filter (\<lambda>a. kind (h a) \<noteq> ''G'') (yield_atoms c)"

definition warn :: "warning \<Rightarrow> world \<Rightarrow> world" where
  "warn m w = w\<lparr>warnings := warnings w @ [m]\<rparr>"

subsection \<open>Strings and ordered sets\<close>

text \<open>Python's \<open>str\<close> on an integer: the decimal digits, with a sign when negative.\<close>

fun str_nat :: "nat \<Rightarrow> string" where
  "str_nat n =
     (if n < 10 then [''0123456789'' ! n]
      else str_nat (n div 10) @ [''0123456789'' ! (n mod 10)])"

declare str_nat.simps [simp del]

definition str_int :: "int \<Rightarrow> string" where
  "str_int i = (if i < 0 then CHR ''-'' # str_nat (nat (- i)) else str_nat (nat i))"

fun py_str :: "rule_id \<Rightarrow> string" where
  "py_str (IntId i) = str_int i"
| "py_str (StrId s) = s"

text \<open>\<open>sep.join(xs)\<close> and \<open>s.split(c)\<close> for a one-character separator.\<close>

fun join :: "string \<Rightarrow> string list \<Rightarrow> string" where
  "join sep [] = []"
| "join sep [x] = x"
| "join sep (x # y # ys) = x @ sep @ join sep (y # ys)"

fun split_on :: "char \<Rightarrow> string \<Rightarrow> string list" where
  "split_on c [] = [[]]"
| "split_on c (x # xs) =
     (if x = c then [] # split_on c xs
      else (case split_on c xs of [] \<Rightarrow> [[x]] | y # ys \<Rightarrow> (x # y) # ys))"

text \<open>
  Modelled from the spec: the ordered set class is not part of the sources at hand. It is
  a list without repetition in insertion order; adding a member again changes nothing,
  and the difference keeps the order of the left operand.
\<close>

definition oset_add :: "string \<Rightarrow> string list \<Rightarrow> string list" where
  "oset_add x xs = (if x \<in> set xs then xs else xs @ [x])"

definition oset_diff :: "string list \<Rightarrow> string list \<Rightarrow> string list" where
  "oset_diff xs ys = filter (\<lambda>x. x \<notin> set ys) xs"

text \<open>A dictionary in insertion order: assignment replaces in place or appends.\<close>

fun dict_set :: "'k \<Rightarrow> 'v \<Rightarrow> ('k \<times> 'v) list \<Rightarrow> ('k \<times> 'v) list" where
  "dict_set k v [] = [(k, v)]"
| "dict_set k v ((k', v') # kvs) =
     (if k = k' then (k, v) # kvs else (k', v') # dict_set k v kvs)"

subsection \<open>The decorators\<close>

text \<open>
  The constructors of \<open>Whitelist\<close> and \<open>Blacklist\<close> turn their argument into a list of
  strings, sorted when the argument was a collection.
\<close>

fun rule_numbers :: "id_arg \<Rightarrow> string list" where
  "rule_numbers (Many xs) = sort (map py_str xs)"
| "rule_numbers (One x) = [py_str x]"

text \<open>\<open>neighbor_types\<close>: the tally of the kinds of an atom's neighbours, computed from
  its bonds when the atom is not yet a key of \<open>neighbor_types_map\<close> and stored there.\<close>

definition count_kind :: "(nat \<Rightarrow> atom) \<Rightarrow> nat \<Rightarrow> (string \<Rightarrow> nat option) \<Rightarrow> (string \<Rightarrow> nat option)" where
  "count_kind h b t =
     t(kind (h b) \<mapsto> (case t (kind (h b)) of None \<Rightarrow> 0 | Some n \<Rightarrow> n) + 1)"

definition tally :: "(nat \<Rightarrow> atom) \<Rightarrow> nat list \<Rightarrow> (string \<Rightarrow> nat option)" where
  "tally h bs = fold (count_kind h) bs Map.empty"

definition neighbor_types :: "nat \<Rightarrow> world \<Rightarrow> (string \<Rightarrow> nat option) \<times> world" where
  "neighbor_types a w =
     (case neighbor_types_map w a of
        Some t \<Rightarrow> (t, w)
      | None \<Rightarrow>
          (let t = tally (heap w) (bonds (heap w a))
           in (t, w\<lparr>neighbor_types_map := (neighbor_types_map w)(a \<mapsto> t)\<rparr>)))"

text \<open>\<open>Whitelist.whitelist\<close> and \<open>Blacklist.blacklist\<close>: add each identifier to the
  atom's ordered set.\<close>

fun whitelist_add :: "string list \<Rightarrow> nat \<Rightarrow> world \<Rightarrow> error + world" where
  "whitelist_add [] a w = Inr w"
| "whitelist_add (r # rs) a w =
     (case whitelist (heap w a) of
        None \<Rightarrow> Inl AttributeError
      | Some wl \<Rightarrow>
          whitelist_add rs a
            (w\<lparr>heap := (heap w)(a := (heap w a)\<lparr>whitelist := Some (oset_add r wl)\<rparr>)\<rparr>))"

fun blacklist_add :: "string list \<Rightarrow> nat \<Rightarrow> world \<Rightarrow> error + world" where
  "blacklist_add [] a w = Inr w"
| "blacklist_add (r # rs) a w =
     (case blacklist (heap w a) of
        None \<Rightarrow> Inl AttributeError
      | Some bl \<Rightarrow>
          blacklist_add rs a
            (w\<lparr>heap := (heap w)(a := (heap w a)\<lparr>blacklist := Some (oset_add r bl)\<rparr>)\<rparr>))"

text \<open>
  Calling a decorated rule on an atom: every guard decorator either passes the call on
  to what it wraps or answers \<open>None\<close> (here \<open>False\<close>); an effect decorator calls what it
  wraps first and, when that answers a true value, adds its identifiers and answers
  \<open>True\<close>. The neighbour guards call \<open>neighbor_types\<close> once for the membership test and,
  when it succeeds, once more for the comparison.
\<close>

fun call_rule ::
  "decorator list \<Rightarrow> ((nat \<Rightarrow> atom) \<Rightarrow> nat \<Rightarrow> bool) \<Rightarrow> nat \<Rightarrow> world \<Rightarrow> error + (bool \<times> world)" where
  "call_rule [] f a w = Inr (f (heap w) a, w)"
| "call_rule (Element e # ds) f a w =
     (if kind (heap w a) = e then call_rule ds f a w else Inr (False, w))"
| "call_rule (NeighborCount n # ds) f a w =
     (if length (bonds (heap w a)) = n then call_rule ds f a w else Inr (False, w))"
| "call_rule (NeighborsExactly k n # ds) f a w =
     (case neighbor_types a w of (t1, w1) \<Rightarrow>
        if t1 k \<noteq> None then
          (case neighbor_types a w1 of (t2, w2) \<Rightarrow>
             if t2 k = Some n then call_rule ds f a w2 else Inr (False, w2))
        else Inr (False, w1))"
| "call_rule (NeighborsAtLeast k n # ds) f a w =
     (case neighbor_types a w of (t1, w1) \<Rightarrow>
        if t1 k \<noteq> None then
          (case neighbor_types a w1 of (t2, w2) \<Rightarrow>
             if (case t2 k of None \<Rightarrow> 0 | Some m \<Rightarrow> m) \<ge> n then call_rule ds f a w2
             else Inr (False, w2))
        else Inr (False, w1))"
| "call_rule (NeighborsAtMost k n # ds) f a w =
     (case neighbor_types a w of (t1, w1) \<Rightarrow>
        if t1 k \<noteq> None then
          (case neighbor_types a w1 of (t2, w2) \<Rightarrow>
             if (case t2 k of None \<Rightarrow> 0 | Some m \<Rightarrow> m) \<le> n then call_rule ds f a w2
             else Inr (False, w2))
        else Inr (False, w1))"
| "call_rule (Whitelist ids # ds) f a w =
     (case call_rule ds f a w of
        Inl e \<Rightarrow> Inl e
      | Inr (r, w1) \<Rightarrow>
          if r then
            (case whitelist_add (rule_numbers ids) a w1 of
               Inl e \<Rightarrow> Inl e
             | Inr w2 \<Rightarrow> Inr (True, w2))
          else Inr (False, w1))"
| "call_rule (Blacklist ids # ds) f a w =
     (case call_rule ds f a w of
        Inl e \<Rightarrow> Inl e
      | Inr (r, w1) \<Rightarrow>
          if r then
            (case blacklist_add (rule_numbers ids) a w1 of
               Inl e \<Rightarrow> Inl e
             | Inr w2 \<Rightarrow> Inr (True, w2))
          else Inr (False, w1))"

text \<open>
  \<open>get_decorator_objects_by_type\<close> walks the closures of a decorated function and
  collects its decorator objects, outermost first. It iterates over the closure of the
  function it is given: a rule function without any decorator has none, and the
  iteration raises a type error.
\<close>

definition get_decorator_objects_by_type :: "rule \<Rightarrow> error + decorator list" where
  "get_decorator_objects_by_type r =
     (if decorators r = [] then Inl TypeError else Inr (decorators r))"

subsection \<open>The typing engine\<close>

definition run_rule :: "nat \<Rightarrow> string \<Rightarrow> world \<Rightarrow> error + world" where
  "run_rule a rule_id w =
     (case whitelist (heap w a) of
        None \<Rightarrow> Inl AttributeError
      | Some wl \<Rightarrow>
          if rule_id \<notin> set wl then
            (case map_of (rule_number_to_rule w) rule_id of
               None \<Rightarrow> Inl KeyError
             | Some r \<Rightarrow>
                 (case call_rule (decorators r) (body r) a w of
                    Inl e \<Rightarrow> Inl e
                  | Inr (res, w') \<Rightarrow> Inr w'))
          else Inr w)"

fun run_rules :: "nat \<Rightarrow> string list \<Rightarrow> world \<Rightarrow> error + world" where
  "run_rules a [] w = Inr w"
| "run_rules a (r # rs) w =
     (case run_rule a r w of Inl e \<Rightarrow> Inl e | Inr w' \<Rightarrow> run_rules a rs w')"

text \<open>The length of an atom's whitelist plus that of its blacklist.\<close>

definition lists_len :: "atom \<Rightarrow> error + nat" where
  "lists_len x =
     (case whitelist x of
        None \<Rightarrow> Inl AttributeError
      | Some wl \<Rightarrow>
          (case blacklist x of
             None \<Rightarrow> Inl AttributeError
           | Some bl \<Rightarrow> Inr (length wl + length bl)))"

text \<open>The rules of an atom: the bucket of its kind and neighbour count, or a warning.\<close>

definition apply_rules :: "nat \<Rightarrow> world \<Rightarrow> error + world" where
  "apply_rules a w =
     (case rule_map w (Some (kind (heap w a))) of
        Some by_count \<Rightarrow>
          (case by_count (Some (length (bonds (heap w a)))) of
             Some rules \<Rightarrow> run_rules a rules w
           | None \<Rightarrow>
               Inr (warn (NoRuleForNeighbors (length (bonds (heap w a))) (kind (heap w a))) w))
      | None \<Rightarrow> Inr (warn (NoRuleForKind (kind (heap w a))) w))"

text \<open>One pass of the inner loop over the atoms; the state carries \<open>old_len\<close> and
  \<open>new_len\<close>.\<close>

fun visit_atoms :: "nat list \<Rightarrow> world \<times> nat \<times> nat \<Rightarrow> error + (world \<times> nat \<times> nat)" where
  "visit_atoms [] s = Inr s"
| "visit_atoms (a # as) (w, old_len, new_len) =
     (case lists_len (heap w a) of
        Inl e \<Rightarrow> Inl e
      | Inr n \<Rightarrow>
          if kind (heap w a) = ''G'' then visit_atoms as (w, old_len + n, new_len)
          else
            (case apply_rules a w of
               Inl e \<Rightarrow> Inl e
             | Inr w' \<Rightarrow>
                 (case lists_len (heap w' a) of
                    Inl e \<Rightarrow> Inl e
                  | Inr n' \<Rightarrow> visit_atoms as (w', old_len + n, new_len + n'))))"

definition max_iter :: nat where
  "max_iter = 10"

text \<open>
  The outer loop, given the number of rounds that remain. The result carries the number
  of rounds that were run. When none remain the \<open>else\<close> branch of the loop warns.
\<close>

fun run_rounds :: "nat \<Rightarrow> compound \<Rightarrow> world \<Rightarrow> error + (world \<times> nat)" where
  "run_rounds 0 c w = Inr (warn MaxIterations w, 0)"
| "run_rounds (Suc k) c w =
     (case visit_atoms (yield_atoms c) (w, 0, 0) of
        Inl e \<Rightarrow> Inl e
      | Inr (w', old_len, new_len) \<Rightarrow>
          if old_len = new_len then Inr (w', 1)
          else
            (case run_rounds k c w' of
               Inl e \<Rightarrow> Inl e
             | Inr (w'', n) \<Rightarrow> Inr (w'', Suc n)))"

text \<open>The final loop: the type of each real atom, or a warning with what remains.\<close>

fun resolve :: "nat \<Rightarrow> nat list \<Rightarrow> world \<Rightarrow> error + world" where
  "resolve i [] w = Inr w"
| "resolve i (a # as) w =
     (case whitelist (heap w a) of
        None \<Rightarrow> Inl AttributeError
      | Some wl \<Rightarrow>
          (case blacklist (heap w a) of
             None \<Rightarrow> Inl AttributeError
           | Some bl \<Rightarrow>
               (case oset_diff wl bl of
                  [t] \<Rightarrow>
                    resolve (Suc i) as
                      (w\<lparr>heap := (heap w)(a := (heap w a)\<lparr>atomtype := Some (TypeList [t])\<rparr>)\<rparr>)
                | ts \<Rightarrow>
                    resolve (Suc i) as
                      ((warn (CheckTopology i (kind (heap w a)) ts) w)
                         \<lparr>heap := (heap w)(a := (heap w a)\<lparr>atomtype := Some (TypeStr (join '', '' ts))\<rparr>)\<rparr>))))"

definition prepare :: "nat \<Rightarrow> world \<Rightarrow> world" where
  "prepare a w =
     w\<lparr>heap := (heap w)(a := (heap w a)\<lparr>whitelist := Some [], blacklist := Some []\<rparr>)\<rparr>"

subsection \<open>The rule registry\<close>

text \<open>The element type and the neighbour count that a rule declares: the last decorator
  of each kind in the list decides, and \<open>None\<close> stays when there is none.\<close>

fun scan_guards :: "decorator list \<Rightarrow> string option \<times> nat option \<Rightarrow> string option \<times> nat option" where
  "scan_guards [] s = s"
| "scan_guards (Element e # ds) (et, nc) = scan_guards ds (Some e, nc)"
| "scan_guards (NeighborCount n # ds) (et, nc) = scan_guards ds (et, Some n)"
| "scan_guards (d # ds) s = scan_guards ds s"

text \<open>\<open>not element_type\<close> and \<open>not neighbor_count\<close>: true of \<open>None\<close>, of the empty
  string and of zero.\<close>

definition falsy_element :: "string option \<Rightarrow> bool" where
  "falsy_element et = (case et of None \<Rightarrow> True | Some e \<Rightarrow> e = [])"

definition falsy_count :: "nat option \<Rightarrow> bool" where
  "falsy_count nc = (case nc of None \<Rightarrow> True | Some n \<Rightarrow> n = 0)"

text \<open>The body of the loop of \<open>build_rule_map\<close> once the decorators of the rule are at
  hand: the two warnings, and the entry in the bucket.\<close>

definition file_rule :: "string \<Rightarrow> decorator list \<Rightarrow> world \<Rightarrow> world" where
  "file_rule rule_number ds w =
     (case scan_guards ds (None, None) of (et, nc) \<Rightarrow>
        let w1 = (if falsy_element et then warn (NoElementType rule_number) w else w);
            w2 = (if falsy_count nc then warn (NoNeighborCount rule_number) w1 else w1);
            by_count = (case rule_map w2 et of None \<Rightarrow> Map.empty | Some m \<Rightarrow> m);
            bucket = (case by_count nc of None \<Rightarrow> [] | Some rs \<Rightarrow> rs)
        in w2\<lparr>rule_map := (rule_map w2)(et \<mapsto> by_count(nc \<mapsto> bucket @ [rule_number]))\<rparr>)"

fun register_rules :: "(string \<times> rule) list \<Rightarrow> world \<Rightarrow> error + world" where
  "register_rules [] w = Inr w"
| "register_rules ((rule_number, r) # rest) w =
     (case get_decorator_objects_by_type r of
        Inl e \<Rightarrow> Inl e
      | Inr ds \<Rightarrow> register_rules rest (file_rule rule_number ds w))"

definition build_rule_map :: "world \<Rightarrow> error + world" where
  "build_rule_map w = register_rules (rule_number_to_rule w) w"

text \<open>Loading a catalogue: every function of the module whose name starts with
  \<open>opls_\<close> is stored under the second piece of its name split at underscores.\<close>

fun load_rules :: "(string \<times> rule) list \<Rightarrow> world \<Rightarrow> error + world" where
  "load_rules [] w = Inr w"
| "load_rules ((fn, fcn) # rest) w =
     (if take 5 fn = ''opls_'' then
        (case split_on CHR ''_'' fn of
           p # q # ps \<Rightarrow>
             load_rules rest (w\<lparr>rule_number_to_rule := dict_set q fcn (rule_number_to_rule w)\<rparr>)
         | ps \<Rightarrow> Inl IndexError)
      else load_rules rest w)"

subsection \<open>The consistency analysis\<close>

text \<open>The first loop of \<open>sanitize\<close>: the elements that some rule names, with the check
  for a second element decorator on one rule.\<close>

fun collect_elements :: "decorator list \<Rightarrow> string option \<Rightarrow> string list \<Rightarrow> error + string list" where
  "collect_elements [] et els = Inr els"
| "collect_elements (Element e # ds) et els =
     (if et \<noteq> None then Inl AssertionError
      else collect_elements ds (Some e) (List.insert e els))"
| "collect_elements (d # ds) et els = collect_elements ds et els"

fun supported_elements :: "(string \<times> rule) list \<Rightarrow> string list \<Rightarrow> error + string list" where
  "supported_elements [] els = Inr (sort els)"
| "supported_elements ((rule_number, r) # rest) els =
     (case get_decorator_objects_by_type r of
        Inl e \<Rightarrow> Inl e
      | Inr ds \<Rightarrow>
          (case collect_elements ds None els of
             Inl e \<Rightarrow> Inl e
           | Inr els' \<Rightarrow> supported_elements rest els'))"

text \<open>The guards of a rule as the second loop reads them, with the check for a second
  neighbour-count decorator.\<close>

fun scan_counts :: "decorator list \<Rightarrow> string option \<times> nat option \<Rightarrow> error + (string option \<times> nat option)" where
  "scan_counts [] s = Inr s"
| "scan_counts (Element e # ds) (et, nc) = scan_counts ds (Some e, nc)"
| "scan_counts (NeighborCount n # ds) (et, nc) =
     (if nc \<noteq> None then Inl AssertionError else scan_counts ds (et, Some n))"
| "scan_counts (d # ds) s = scan_counts ds s"

text \<open>\<open>itertools.combinations_with_replacement\<close>, in its order of emission.\<close>

fun combinations_with_replacement :: "'a list \<Rightarrow> nat \<Rightarrow> 'a list list" where
  "combinations_with_replacement xs 0 = [[]]"
| "combinations_with_replacement [] (Suc r) = []"
| "combinations_with_replacement (x # xs) (Suc r) =
     map ((#) x) (combinations_with_replacement (x # xs) r)
     @ combinations_with_replacement xs (Suc r)"

text \<open>A neighbour guard removes the patterns that fail its comparison.\<close>

fun removes :: "decorator \<Rightarrow> string list \<Rightarrow> bool" where
  "removes (NeighborsExactly k n) p = (\<not> count_list p k = n)"
| "removes (NeighborsAtLeast k n) p = (\<not> count_list p k \<ge> n)"
| "removes (NeighborsAtMost k n) p = (\<not> count_list p k \<le> n)"
| "removes d p = False"

definition removed_patterns :: "decorator list \<Rightarrow> string list list \<Rightarrow> string list list" where
  "removed_patterns ds all_patterns =
     remdups (concat (map (\<lambda>d. filter (removes d) all_patterns) ds))"

definition add_match ::
  "string option \<times> string list \<Rightarrow> string \<Rightarrow>
   ((string option \<times> string list) \<times> string list) list \<Rightarrow>
   ((string option \<times> string list) \<times> string list) list" where
  "add_match key rule_number rule_matches =
     (case map_of rule_matches key of
        None \<Rightarrow> rule_matches @ [(key, [rule_number])]
      | Some rs \<Rightarrow> dict_set key (oset_add rule_number rs) rule_matches)"

fun match_rules ::
  "string list \<Rightarrow> (string \<times> rule) list \<Rightarrow>
   ((string option \<times> string list) \<times> string list) list \<Rightarrow>
   error + ((string option \<times> string list) \<times> string list) list" where
  "match_rules els [] rule_matches = Inr rule_matches"
| "match_rules els ((rule_number, r) # rest) rule_matches =
     (case get_decorator_objects_by_type r of
        Inl e \<Rightarrow> Inl e
      | Inr ds \<Rightarrow>
          (case scan_counts ds (None, None) of
             Inl e \<Rightarrow> Inl e
           | Inr (et, nc) \<Rightarrow>
               (case nc of
                  None \<Rightarrow> Inl TypeError
                | Some n \<Rightarrow>
                    (let all_patterns = remdups (combinations_with_replacement els n);
                         removed = removed_patterns ds all_patterns;
                         kept = filter (\<lambda>p. p \<notin> set removed) all_patterns
                     in match_rules els rest
                          (fold (\<lambda>p. add_match (et, p) rule_number) kept rule_matches)))))"

text \<open>
  The directed graph of the graph library, as far as the analysis uses it: nodes in the
  order they were added, and edges. Adding an edge adds its two ends as nodes; a node
  enters the graph in no other way here.
\<close>

record digraph =
  nodes :: "string list"
  edges :: "(string \<times> string) list"

definition add_edge :: "string \<Rightarrow> string \<Rightarrow> digraph \<Rightarrow> digraph" where
  "add_edge u v G =
     \<lparr>nodes = oset_add v (oset_add u (nodes G)),
      edges = (if (u, v) \<in> set (edges G) then edges G else edges G @ [(u, v)])\<rparr>"

definition step_from :: "(string \<times> string) list \<Rightarrow> string list \<Rightarrow> string list" where
  "step_from es vs = remdups (vs @ map snd (filter (\<lambda>e. fst e \<in> set vs) es))"

definition reachable :: "string list \<Rightarrow> (string \<times> string) list \<Rightarrow> string list \<Rightarrow> string list" where
  "reachable ns es vs = (step_from es ^^ length ns) vs"

text \<open>\<open>descendants\<close>: the nodes that a node reaches, the node itself left out.\<close>

definition descendants :: "digraph \<Rightarrow> string \<Rightarrow> string list" where
  "descendants G v = filter (\<lambda>u. u \<noteq> v) (reachable (nodes G) (edges G) [v])"

text \<open>\<open>is_connected\<close> of the undirected graph: an exception on the graph without
  nodes, else whether the first node reaches every node along edges in either direction.\<close>

definition is_connected_undirected :: "digraph \<Rightarrow> error + bool" where
  "is_connected_undirected G =
     (case nodes G of
        [] \<Rightarrow> Inl NetworkXPointlessConcept
      | v # vs \<Rightarrow>
          Inr (list_all
                 (\<lambda>u. u \<in> set (reachable (nodes G)
                                 (edges G @ map (\<lambda>e. (snd e, fst e)) (edges G)) [v]))
                 (nodes G)))"

text \<open>\<open>is_directed_acyclic_graph\<close>: no node is reached from one of its successors.\<close>

definition is_directed_acyclic_graph :: "digraph \<Rightarrow> bool" where
  "is_directed_acyclic_graph G =
     (\<not> list_ex
          (\<lambda>v. v \<in> set (reachable (nodes G) (edges G)
                          (map snd (filter (\<lambda>e. fst e = v) (edges G)))))
          (nodes G))"

definition blacklisted_rules :: "decorator list \<Rightarrow> string list" where
  "blacklisted_rules ds =
     fold (\<lambda>d acc. case d of Blacklist ids \<Rightarrow> fold oset_add (rule_numbers ids) acc | _ \<Rightarrow> acc)
       ds []"

text \<open>The graph of a group: for each rule of the group, an edge to every rule that it
  blacklists.\<close>

fun build_graph :: "(string \<times> rule) list \<Rightarrow> string list \<Rightarrow> digraph \<Rightarrow> error + digraph" where
  "build_graph rules [] G = Inr G"
| "build_graph rules (rule_number # rest) G =
     (case map_of rules rule_number of
        None \<Rightarrow> Inl KeyError
      | Some r \<Rightarrow>
          (case get_decorator_objects_by_type r of
             Inl e \<Rightarrow> Inl e
           | Inr ds \<Rightarrow>
               build_graph rules rest (fold (add_edge rule_number) (blacklisted_rules ds) G)))"

definition sinks_of :: "digraph \<Rightarrow> string list" where
  "sinks_of G = filter (\<lambda>v. length (descendants G v) = 0) (nodes G)"

text \<open>\<open>draw_rule_graph\<close> writes a picture of the graph to a file, which is not
  modelled, and warns.\<close>

definition draw_rule_graph ::
  "issue \<Rightarrow> digraph \<Rightarrow> string option \<Rightarrow> string list \<Rightarrow> string list option \<Rightarrow> world \<Rightarrow> world" where
  "draw_rule_graph i G element pattern sinks w = warn (RuleGraph i element pattern sinks) w"

definition check_group ::
  "(string option \<times> string list) \<times> string list \<Rightarrow> world \<Rightarrow> error + world" where
  "check_group entry w =
     (case entry of ((element_type, pattern), rules) \<Rightarrow>
        if length rules < 2 then Inr w
        else
          (case build_graph (rule_number_to_rule w) rules \<lparr>nodes = [], edges = []\<rparr> of
             Inl e \<Rightarrow> Inl e
           | Inr G \<Rightarrow>
               (case is_connected_undirected G of
                  Inl e \<Rightarrow> Inl e
                | Inr connected \<Rightarrow>
                    (let w1 = (if \<not> connected
                               then draw_rule_graph Unconnected G element_type pattern None w
                               else w);
                         w2 = (if \<not> is_directed_acyclic_graph G
                               then draw_rule_graph NotDAG G element_type pattern None w1
                               else w1);
                         sinks = sinks_of G
                     in Inr (if length sinks > 1
                             then draw_rule_graph MultipleSinks G element_type pattern
                                    (Some sinks) w2
                             else w2)))))"

fun check_groups ::
  "((string option \<times> string list) \<times> string list) list \<Rightarrow> world \<Rightarrow> error + world" where
  "check_groups [] w = Inr w"
| "check_groups (entry # rest) w =
     (case check_group entry w of Inl e \<Rightarrow> Inl e | Inr w' \<Rightarrow> check_groups rest w')"

definition sanitize :: "world \<Rightarrow> error + world" where
  "sanitize w =
     (case supported_elements (rule_number_to_rule w) [] of
        Inl e \<Rightarrow> Inl e
      | Inr els \<Rightarrow>
          (case match_rules els (rule_number_to_rule w) [] of
             Inl e \<Rightarrow> Inl e
           | Inr rule_matches \<Rightarrow> check_groups rule_matches w))"

subsection \<open>The entry point\<close>

text \<open>
  \<open>find_atomtypes\<close>, given the functions of the catalogue module as a parameter. An
  exception ends the run; the changes made to the world before it are not returned.
\<close>

definition find_atomtypes ::
  "(string \<times> rule) list \<Rightarrow> compound \<Rightarrow> string \<Rightarrow> bool \<Rightarrow> world \<Rightarrow> error + world" where
  "find_atomtypes oplsaa c forcefield debug w =
     (case (if forcefield = ''OPLS-AA'' then load_rules oplsaa w else Inr w) of
        Inl e \<Rightarrow> Inl e
      | Inr w1 \<Rightarrow>
          (case build_rule_map w1 of
             Inl e \<Rightarrow> Inl e
           | Inr wb \<Rightarrow>
               (case (if debug then sanitize wb else Inr wb) of
                  Inl e \<Rightarrow> Inl e
                | Inr w2 \<Rightarrow>
                    (case run_rounds max_iter c (fold prepare (yield_atoms c) w2) of
                       Inl e \<Rightarrow> Inl e
                     | Inr (w3, n) \<Rightarrow> resolve 0 (atoms_of (heap w3) c) w3))))"




text \<open>The world of a freshly imported module: the three dictionaries are empty.\<close>

definition fresh :: "(nat \<Rightarrow> atom) \<Rightarrow> world" where
  "fresh h =
     \<lparr>heap = h, rule_number_to_rule = [], rule_map = Map.empty,
      neighbor_types_map = Map.empty, warnings = []\<rparr>"

subsection \<open>Notions used in the statements\<close>

text \<open>An atom has its two lists: \<open>prepare\<close> has been called on it.\<close>

definition allocated :: "atom \<Rightarrow> bool" where
  "allocated x \<longleftrightarrow> whitelist x \<noteq> None \<and> blacklist x \<noteq> None"

text \<open>A list of the extras is only appended to: an absent list stays absent, a present one
  keeps what it has, in place, and stays without repetition when it was.\<close>

definition extends :: "string list option \<Rightarrow> string list option \<Rightarrow> bool" where
  "extends l l' \<longleftrightarrow>
     (case l of
        None \<Rightarrow> l' = None
      | Some xs \<Rightarrow> (\<exists>ys. l' = Some (xs @ ys) \<and> (distinct xs \<longrightarrow> distinct (xs @ ys))))"

text \<open>An atom keeps its kind, bonds and type, and its two lists are only appended to.\<close>

definition grows :: "atom \<Rightarrow> atom \<Rightarrow> bool" where
  "grows x y \<longleftrightarrow>
     kind y = kind x \<and> bonds y = bonds x \<and> atomtype y = atomtype x \<and>
     extends (whitelist x) (whitelist y) \<and> extends (blacklist x) (blacklist y)"

text \<open>What calling a rule on the atom \<open>a\<close> may change: the lists of \<open>a\<close> grow, an entry of
  the tally cache may be added for \<open>a\<close>, and everything else stays.\<close>

definition evolves :: "nat \<Rightarrow> world \<Rightarrow> world \<Rightarrow> bool" where
  "evolves a w w' \<longleftrightarrow>
     (\<forall>x. x \<noteq> a \<longrightarrow> heap w' x = heap w x) \<and>
     grows (heap w a) (heap w' a) \<and>
     rule_number_to_rule w' = rule_number_to_rule w \<and>
     rule_map w' = rule_map w \<and>
     warnings w' = warnings w \<and>
     (\<forall>x. x \<noteq> a \<longrightarrow> neighbor_types_map w' x = neighbor_types_map w x) \<and>
     (\<forall>t. neighbor_types_map w a = Some t \<longrightarrow> neighbor_types_map w' a = Some t)"

text \<open>The two warnings for an atom of a kind without a rule.\<close>

fun coverage_warning :: "string \<Rightarrow> warning \<Rightarrow> bool" where
  "coverage_warning k (NoRuleForKind k') = (k' = k)"
| "coverage_warning k (NoRuleForNeighbors n k') = (k' = k)"
| "coverage_warning k m = False"

text \<open>What visiting one atom in a round may change: the same, and a coverage warning.\<close>

definition visited :: "nat \<Rightarrow> world \<Rightarrow> world \<Rightarrow> bool" where
  "visited a w w' \<longleftrightarrow>
     (\<exists>ms. evolves a (w\<lparr>warnings := warnings w @ ms\<rparr>) w' \<and>
           (\<forall>m \<in> set ms. coverage_warning (kind (heap w a)) m))"

text \<open>What a round over the atoms \<open>as\<close> may change: lists grow, atoms outside \<open>as\<close> and ports
  stay as they are, the registry stays, the tally cache keeps its entries, and the new
  warnings are coverage warnings for atoms of \<open>as\<close> that are not ports.\<close>

definition round_step :: "nat list \<Rightarrow> world \<Rightarrow> world \<Rightarrow> bool" where
  "round_step as w w' \<longleftrightarrow>
     (\<forall>x. grows (heap w x) (heap w' x)) \<and>
     (\<forall>x. x \<notin> set as \<or> kind (heap w x) = ''G'' \<longrightarrow>
          heap w' x = heap w x \<and> neighbor_types_map w' x = neighbor_types_map w x) \<and>
     rule_number_to_rule w' = rule_number_to_rule w \<and>
     rule_map w' = rule_map w \<and>
     (\<forall>x t. neighbor_types_map w x = Some t \<longrightarrow> neighbor_types_map w' x = Some t) \<and>
     (\<exists>ms. warnings w' = warnings w @ ms \<and>
           (\<forall>m \<in> set ms. \<exists>a \<in> set as.
              kind (heap w a) \<noteq> ''G'' \<and> coverage_warning (kind (heap w a)) m))"

text \<open>\<open>rule_map[element_type][neighbor_count]\<close>, when both keys are present.\<close>

definition bucket :: "world \<Rightarrow> string option \<Rightarrow> nat option \<Rightarrow> string list option" where
  "bucket w et nc = (case rule_map w et of None \<Rightarrow> None | Some by_count \<Rightarrow> by_count nc)"

definition bucket_list :: "world \<Rightarrow> string option \<Rightarrow> nat option \<Rightarrow> string list" where
  "bucket_list w et nc = (case bucket w et nc of None \<Rightarrow> [] | Some rs \<Rightarrow> rs)"

text \<open>Every rule number in the registry is a key of \<open>rule_number_to_rule\<close>.\<close>

definition registry_ok :: "world \<Rightarrow> bool" where
  "registry_ok w \<longleftrightarrow>
     (\<forall>et nc rs r. bucket w et nc = Some rs \<longrightarrow> r \<in> set rs \<longrightarrow>
        map_of (rule_number_to_rule w) r \<noteq> None)"

text \<open>The element type and neighbour count under which \<open>build_rule_map\<close> files a rule.\<close>

definition declared :: "rule \<Rightarrow> string option \<times> nat option" where
  "declared r = scan_guards (decorators r) (None, None)"

text \<open>Every rule function of the catalogue carries at least one decorator; and the world
  that the build returns then.\<close>

definition decorated :: "world \<Rightarrow> bool" where
  "decorated w \<longleftrightarrow> (\<forall>(rn, r) \<in> set (rule_number_to_rule w). decorators r \<noteq> [])"

definition filed :: "world \<Rightarrow> world" where
  "filed w = fold (\<lambda>(rn, r). file_rule rn (decorators r)) (rule_number_to_rule w) w"

text \<open>The sum over the atoms of the lengths of the whitelist and the blacklist.\<close>

definition list_size :: "atom \<Rightarrow> nat" where
  "list_size x =
     (case whitelist x of None \<Rightarrow> 0 | Some wl \<Rightarrow> length wl)
     + (case blacklist x of None \<Rightarrow> 0 | Some bl \<Rightarrow> length bl)"

definition total_len :: "(nat \<Rightarrow> atom) \<Rightarrow> nat list \<Rightarrow> nat" where
  "total_len h as = sum_list (map (\<lambda>a. list_size (h a)) as)"

text \<open>The state in which the loop of rounds is entered: the compound yields every atom once,
  every atom it yields has its lists, those of the ports are empty, and the registry is
  consistent with the catalogue.\<close>

definition ready :: "compound \<Rightarrow> world \<Rightarrow> bool" where
  "ready c w \<longleftrightarrow>
     distinct (yield_atoms c) \<and>
     (\<forall>a \<in> set (yield_atoms c). allocated (heap w a)) \<and>
     (\<forall>a \<in> set (yield_atoms c). kind (heap w a) = ''G'' \<longrightarrow> list_size (heap w a) = 0) \<and>
     registry_ok w"

text \<open>The world after one round, after \<open>j\<close> rounds, and the total of the lengths then.\<close>

definition round_of :: "compound \<Rightarrow> world \<Rightarrow> world" where
  "round_of c w =
     (case visit_atoms (yield_atoms c) (w, 0, 0) of
        Inl e \<Rightarrow> w
      | Inr (w', old_len, new_len) \<Rightarrow> w')"

fun world_after :: "nat \<Rightarrow> compound \<Rightarrow> world \<Rightarrow> world" where
  "world_after 0 c w = w"
| "world_after (Suc j) c w = world_after j c (round_of c w)"

definition total_after :: "nat \<Rightarrow> compound \<Rightarrow> world \<Rightarrow> nat" where
  "total_after j c w = total_len (heap (world_after j c w)) (yield_atoms c)"

text \<open>The totals before the first round and after each of the next \<open>k\<close> rounds.\<close>

fun totals :: "nat \<Rightarrow> compound \<Rightarrow> world \<Rightarrow> nat list" where
  "totals 0 c w = [total_len (heap w) (yield_atoms c)]"
| "totals (Suc k) c w = total_len (heap w) (yield_atoms c) # totals k c (round_of c w)"

text \<open>What the final loop stores for a remainder.\<close>

definition type_value :: "string list \<Rightarrow> atomtype_value" where
  "type_value ts = (case ts of [t] \<Rightarrow> TypeList [t] | _ \<Rightarrow> TypeStr (join '', '' ts))"

text \<open>The element decorators and the neighbour-count decorators of a rule.\<close>

fun is_element :: "decorator \<Rightarrow> bool" where
  "is_element (Element e) = True"
| "is_element d = False"

fun is_count :: "decorator \<Rightarrow> bool" where
  "is_count (NeighborCount n) = True"
| "is_count d = False"

definition element_guards :: "rule \<Rightarrow> decorator list" where
  "element_guards r = filter is_element (decorators r)"

definition count_guards :: "rule \<Rightarrow> decorator list" where
  "count_guards r = filter is_count (decorators r)"

text \<open>The second world is the first with warnings of a given sort added; and the same of
  the logs alone.\<close>

definition adds_warnings :: "(warning \<Rightarrow> bool) \<Rightarrow> world \<Rightarrow> world \<Rightarrow> bool" where
  "adds_warnings P w w' \<longleftrightarrow>
     (\<exists>ms. w' = w\<lparr>warnings := warnings w @ ms\<rparr> \<and> (\<forall>m \<in> set ms. P m))"

definition logs :: "(warning \<Rightarrow> bool) \<Rightarrow> world \<Rightarrow> world \<Rightarrow> bool" where
  "logs P w w' \<longleftrightarrow> (\<exists>ms. warnings w' = warnings w @ ms \<and> (\<forall>m \<in> set ms. P m))"

text \<open>The warnings of the analysis, and the warnings that name the kind of an atom.\<close>

fun graph_warning :: "warning \<Rightarrow> bool" where
  "graph_warning (RuleGraph i e p s) = True"
| "graph_warning m = False"

fun about_kind :: "string \<Rightarrow> warning \<Rightarrow> bool" where
  "about_kind k (NoRuleForNeighbors n k') = (k' = k)"
| "about_kind k (NoRuleForKind k') = (k' = k)"
| "about_kind k (CheckTopology i k' ts) = (k' = k)"
| "about_kind k m = False"

text \<open>The bonds of one atom are replaced, as between two runs.\<close>

definition rebond :: "nat \<Rightarrow> nat list \<Rightarrow> world \<Rightarrow> world" where
  "rebond a bs w = w\<lparr>heap := (heap w)(a := (heap w a)\<lparr>bonds := bs\<rparr>)\<rparr>"

subsection \<open>Examples\<close>

text \<open>A carbon bonded to a hydrogen, and a port; two rules, one for each real atom.\<close>

definition ex_atom :: "string \<Rightarrow> nat list \<Rightarrow> atom" where
  "ex_atom k bs = \<lparr>kind = k, bonds = bs, whitelist = None, blacklist = None, atomtype = None\<rparr>"

definition ex_heap :: "nat \<Rightarrow> atom" where
  "ex_heap =
     (\<lambda>a. ex_atom ''X'' [])(0 := ex_atom ''C'' [1], 1 := ex_atom ''H'' [0], 2 := ex_atom ''G'' [])"

definition ex_compound :: compound where
  "ex_compound = \<lparr>yield_atoms = [0, 1, 2]\<rparr>"

definition always :: "(nat \<Rightarrow> atom) \<Rightarrow> nat \<Rightarrow> bool" where
  "always h a = True"

definition ex_catalogue :: "(string \<times> rule) list" where
  "ex_catalogue =
     [(''opls_135'',
       \<lparr>decorators = [Element ''C'', NeighborCount 1, NeighborsExactly ''H'' 1,
                      Whitelist (One (IntId 135))],
        body = always\<rparr>),
      (''opls_140'',
       \<lparr>decorators = [Element ''H'', NeighborCount 1, Whitelist (One (IntId 140))],
        body = always\<rparr>)]"

definition ex_loaded :: world where
  "ex_loaded = projr (build_rule_map (projr (load_rules ex_catalogue (fresh ex_heap))))"

definition ex_ready :: world where
  "ex_ready = fold prepare (yield_atoms ex_compound) ex_loaded"



text \<open>Three atoms as they may stand after the rounds: one candidate left, one left
  after the blacklist is taken away, and two left.\<close>

definition ex_listed :: "string list \<Rightarrow> string list \<Rightarrow> atom" where
  "ex_listed wl bl =
     \<lparr>kind = ''C'', bonds = [], whitelist = Some wl, blacklist = Some bl, atomtype = None\<rparr>"

definition ex_converged :: world where
  "ex_converged =
     fresh ((\<lambda>a. ex_atom ''G'' [])
              (0 := ex_listed [''135''] [],
               1 := ex_listed [''135'', ''145''] [''145''],
               3 := ex_listed [''135'', ''145''] []))"

definition ex_converged_compound :: compound where
  "ex_converged_compound = \<lparr>yield_atoms = [0, 1, 2, 3]\<rparr>"

text \<open>A chain of an oxygen and ten carbons, visited from the far end: the oxygen is typed at
  once, and a carbon once the atom before it is typed, so every round types one atom more.\<close>

definition chain_heap :: "nat \<Rightarrow> atom" where
  "chain_heap a =
     (if a = 0 then ex_atom ''O'' [1]
      else if a \<le> 10 then ex_atom ''C'' [a - 1, a + 1]
      else ex_atom ''G'' [10])"

definition typed_before :: "(nat \<Rightarrow> atom) \<Rightarrow> nat \<Rightarrow> bool" where
  "typed_before h a =
     (case bonds (h a) of
        [] \<Rightarrow> False
      | b # bs \<Rightarrow> (case whitelist (h b) of None \<Rightarrow> False | Some wl \<Rightarrow> wl \<noteq> []))"

definition chain_catalogue :: "(string \<times> rule) list" where
  "chain_catalogue =
     [(''opls_1'',
       \<lparr>decorators = [Element ''O'', NeighborCount 1, Whitelist (One (IntId 1))],
        body = always\<rparr>),
      (''opls_2'',
       \<lparr>decorators = [Element ''C'', NeighborCount 2, Whitelist (One (IntId 2))],
        body = typed_before\<rparr>)]"

definition ex_chain_compound :: compound where
  "ex_chain_compound = \<lparr>yield_atoms = rev [0..<11]\<rparr>"

definition ex_chain :: world where
  "ex_chain =
     fold prepare (yield_atoms ex_chain_compound)
       (projr (build_rule_map (projr (load_rules chain_catalogue (fresh chain_heap)))))"



definition unguarded_rule :: rule where
  "unguarded_rule =
     \<lparr>decorators = [NeighborCount 1, Whitelist (One (IntId 999))], body = always\<rparr>"

definition guarded_rule :: rule where
  "guarded_rule =
     \<lparr>decorators = [Element ''C'', NeighborCount 1, Whitelist (One (IntId 135))],
      body = always\<rparr>"

definition ex_unguarded :: world where
  "ex_unguarded =
     (fresh ex_heap)\<lparr>rule_number_to_rule := [(''999'', unguarded_rule), (''135'', guarded_rule)]\<rparr>"

text \<open>A catalogue in which one rule has two element decorators, and one in which a rule has
  two neighbour-count decorators.\<close>

definition twice_element_rule :: rule where
  "twice_element_rule =
     \<lparr>decorators = [Element ''C'', Element ''N'', NeighborCount 1, Whitelist (One (IntId 200))],
      body = always\<rparr>"

definition dup_catalogue :: "(string \<times> rule) list" where
  "dup_catalogue =
     [(''opls_135'', guarded_rule), (''opls_200'', twice_element_rule),
      (''opls_140'',
       \<lparr>decorators = [Element ''H'', NeighborCount 1, Whitelist (One (IntId 140))],
        body = always\<rparr>)]"

definition ex_dup :: world where
  "ex_dup = projr (load_rules dup_catalogue (fresh ex_heap))"

definition twice_count_rule :: rule where
  "twice_count_rule =
     \<lparr>decorators = [Element ''C'', NeighborCount 1, NeighborCount 2, Whitelist (One (IntId 201))],
      body = always\<rparr>"

definition ex_dup_count :: world where
  "ex_dup_count =
     (fresh ex_heap)\<lparr>rule_number_to_rule := [(''135'', guarded_rule), (''201'', twice_count_rule)]\<rparr>"

text \<open>The rules of the single-sink example: the first and the third blacklist the second;
  the fourth, which blacklists nothing and is blacklisted by none, is added to them. In
  the last catalogue no rule blacklists any.\<close>

definition blacklisting :: "int list \<Rightarrow> rule" where
  "blacklisting bl =
     \<lparr>decorators = [Element ''C'', NeighborCount 1] @ map (\<lambda>i. Blacklist (One (IntId i))) bl,
      body = always\<rparr>"

definition ex_sinks3 :: world where
  "ex_sinks3 =
     (fresh ex_heap)\<lparr>rule_number_to_rule :=
        [(''1'', blacklisting [2]), (''2'', blacklisting []), (''3'', blacklisting [2])]\<rparr>"

definition ex_sinks4 :: world where
  "ex_sinks4 =
     (fresh ex_heap)\<lparr>rule_number_to_rule :=
        [(''1'', blacklisting [2]), (''2'', blacklisting []), (''3'', blacklisting [2]),
         (''4'', blacklisting [])]\<rparr>"

definition ex_unrelated :: world where
  "ex_unrelated =
     (fresh ex_heap)\<lparr>rule_number_to_rule :=
        [(''1'', blacklisting []), (''2'', blacklisting [])]\<rparr>"

text \<open>The world after a first run, with the carbon bonded to another atom since.\<close>

definition stale_second :: world where
  "stale_second =
     rebond 0 [3] (projr (find_atomtypes ex_catalogue ex_compound ''OPLS-AA'' False (fresh ex_heap)))"

section \<open>Properties of the engine\<close>

subsection \<open>Calling and running rules\<close>

lemma extends_refl: "extends l l"
  by (auto simp: extends_def split: option.splits)

lemma extends_trans: "extends l1 l2 \<Longrightarrow> extends l2 l3 \<Longrightarrow> extends l1 l3"
  by (auto simp: extends_def split: option.splits)

lemma extends_oset_add: "extends (Some xs) (Some (oset_add r xs))"
  by (auto simp: extends_def oset_add_def)

lemma grows_refl: "grows x x"
  by (simp add: grows_def extends_refl)

lemma grows_trans: "grows x y \<Longrightarrow> grows y z \<Longrightarrow> grows x z"
  by (auto simp: grows_def intro: extends_trans)

lemma evolves_refl: "evolves a w w"
  by (simp add: evolves_def grows_refl)

lemma evolves_trans: "evolves a w1 w2 \<Longrightarrow> evolves a w2 w3 \<Longrightarrow> evolves a w1 w3"
  unfolding evolves_def by (auto intro: grows_trans)

lemma neighbor_types_evolves: "neighbor_types a w = (t, w') \<Longrightarrow> evolves a w w'"
  by (auto simp: neighbor_types_def evolves_def grows_refl Let_def split: option.splits)

lemma whitelist_add_evolves: "whitelist_add rs a w = Inr w' \<Longrightarrow> evolves a w w'"
proof (induction rs arbitrary: w)
  case Nil
  then show ?case by (simp add: evolves_refl)
next
  case (Cons r rs)
  from Cons.prems obtain wl where wl: "whitelist (heap w a) = Some wl"
    by (auto split: option.splits)
  let ?w1 = "w\<lparr>heap := (heap w)(a := (heap w a)\<lparr>whitelist := Some (oset_add r wl)\<rparr>)\<rparr>"
  have step: "evolves a w ?w1"
    using wl by (simp add: evolves_def grows_def extends_refl extends_oset_add)
  from Cons.prems wl have "whitelist_add rs a ?w1 = Inr w'" by simp
  then have "evolves a ?w1 w'" by (rule Cons.IH)
  with step show ?case by (rule evolves_trans)
qed

lemma blacklist_add_evolves: "blacklist_add rs a w = Inr w' \<Longrightarrow> evolves a w w'"
proof (induction rs arbitrary: w)
  case Nil
  then show ?case by (simp add: evolves_refl)
next
  case (Cons r rs)
  from Cons.prems obtain bl where bl: "blacklist (heap w a) = Some bl"
    by (auto split: option.splits)
  let ?w1 = "w\<lparr>heap := (heap w)(a := (heap w a)\<lparr>blacklist := Some (oset_add r bl)\<rparr>)\<rparr>"
  have step: "evolves a w ?w1"
    using bl by (simp add: evolves_def grows_def extends_refl extends_oset_add)
  from Cons.prems bl have "blacklist_add rs a ?w1 = Inr w'" by simp
  then have "evolves a ?w1 w'" by (rule Cons.IH)
  with step show ?case by (rule evolves_trans)
qed

lemma call_rule_evolves: "call_rule ds f a w = Inr (res, w') \<Longrightarrow> evolves a w w'"
proof (induction ds f a w arbitrary: res w' rule: call_rule.induct)
  case (1 f a w)
  then show ?case by (simp add: evolves_refl)
next
  case (2 e ds f a w)
  then show ?case by (auto simp: evolves_refl split: if_splits)
next
  case (3 n ds f a w)
  then show ?case by (auto simp: evolves_refl split: if_splits)
next
  case (4 k n ds f a w)
  obtain t1 w1 where n1: "neighbor_types a w = (t1, w1)" by (cases "neighbor_types a w")
  obtain t2 w2 where n2: "neighbor_types a w1 = (t2, w2)" by (cases "neighbor_types a w1")
  have e1: "evolves a w w1" using n1 by (rule neighbor_types_evolves)
  have e2: "evolves a w w2" using e1 neighbor_types_evolves[OF n2] by (rule evolves_trans)
  show ?case
    using "4.prems" "4.IH"[OF n1[symmetric] _ n2[symmetric]] n1 n2 e1 e2
    by (auto split: if_splits intro: evolves_trans)
next
  case (5 k n ds f a w)
  obtain t1 w1 where n1: "neighbor_types a w = (t1, w1)" by (cases "neighbor_types a w")
  obtain t2 w2 where n2: "neighbor_types a w1 = (t2, w2)" by (cases "neighbor_types a w1")
  have e1: "evolves a w w1" using n1 by (rule neighbor_types_evolves)
  have e2: "evolves a w w2" using e1 neighbor_types_evolves[OF n2] by (rule evolves_trans)
  show ?case
    using "5.prems" "5.IH"[OF n1[symmetric] _ n2[symmetric]] n1 n2 e1 e2
    by (auto split: if_splits intro: evolves_trans)
next
  case (6 k n ds f a w)
  obtain t1 w1 where n1: "neighbor_types a w = (t1, w1)" by (cases "neighbor_types a w")
  obtain t2 w2 where n2: "neighbor_types a w1 = (t2, w2)" by (cases "neighbor_types a w1")
  have e1: "evolves a w w1" using n1 by (rule neighbor_types_evolves)
  have e2: "evolves a w w2" using e1 neighbor_types_evolves[OF n2] by (rule evolves_trans)
  show ?case
    using "6.prems" "6.IH"[OF n1[symmetric] _ n2[symmetric]] n1 n2 e1 e2
    by (auto split: if_splits intro: evolves_trans)
next
  case (7 ids ds f a w)
  then show ?case
    by (auto split: sum.splits if_splits prod.splits
        intro: evolves_trans dest: whitelist_add_evolves)
next
  case (8 ids ds f a w)
  then show ?case
    by (auto split: sum.splits if_splits prod.splits
        intro: evolves_trans dest: blacklist_add_evolves)
qed

lemma grows_allocated: "grows x y \<Longrightarrow> allocated x \<Longrightarrow> allocated y"
  by (auto simp: grows_def allocated_def extends_def split: option.splits)

lemma evolves_allocated: "evolves a w w' \<Longrightarrow> allocated (heap w x) \<Longrightarrow> allocated (heap w' x)"
  by (cases "x = a") (auto simp: evolves_def dest: grows_allocated)

lemma whitelist_add_total:
  "whitelist (heap w a) \<noteq> None \<Longrightarrow> \<exists>w'. whitelist_add rs a w = Inr w'"
  by (induction rs arbitrary: w) auto

lemma blacklist_add_total:
  "blacklist (heap w a) \<noteq> None \<Longrightarrow> \<exists>w'. blacklist_add rs a w = Inr w'"
  by (induction rs arbitrary: w) auto

lemma call_rule_total:
  "allocated (heap w a) \<Longrightarrow> \<exists>res w'. call_rule ds f a w = Inr (res, w')"
proof (induction ds f a w rule: call_rule.induct)
  case (4 k n ds f a w)
  obtain t1 w1 where n1: "neighbor_types a w = (t1, w1)" by (cases "neighbor_types a w")
  obtain t2 w2 where n2: "neighbor_types a w1 = (t2, w2)" by (cases "neighbor_types a w1")
  have "evolves a w w2"
    using neighbor_types_evolves[OF n1] neighbor_types_evolves[OF n2] by (rule evolves_trans)
  then have "allocated (heap w2 a)" using "4.prems" by (rule evolves_allocated)
  then show ?case using "4.IH"[OF n1[symmetric] _ n2[symmetric]] n1 n2 by auto
next
  case (5 k n ds f a w)
  obtain t1 w1 where n1: "neighbor_types a w = (t1, w1)" by (cases "neighbor_types a w")
  obtain t2 w2 where n2: "neighbor_types a w1 = (t2, w2)" by (cases "neighbor_types a w1")
  have "evolves a w w2"
    using neighbor_types_evolves[OF n1] neighbor_types_evolves[OF n2] by (rule evolves_trans)
  then have "allocated (heap w2 a)" using "5.prems" by (rule evolves_allocated)
  then show ?case using "5.IH"[OF n1[symmetric] _ n2[symmetric]] n1 n2 by auto
next
  case (6 k n ds f a w)
  obtain t1 w1 where n1: "neighbor_types a w = (t1, w1)" by (cases "neighbor_types a w")
  obtain t2 w2 where n2: "neighbor_types a w1 = (t2, w2)" by (cases "neighbor_types a w1")
  have "evolves a w w2"
    using neighbor_types_evolves[OF n1] neighbor_types_evolves[OF n2] by (rule evolves_trans)
  then have "allocated (heap w2 a)" using "6.prems" by (rule evolves_allocated)
  then show ?case using "6.IH"[OF n1[symmetric] _ n2[symmetric]] n1 n2 by auto
next
  case (7 ids ds f a w)
  from "7.IH"[OF "7.prems"] obtain r w1 where c: "call_rule ds f a w = Inr (r, w1)" by blast
  from call_rule_evolves[OF c] "7.prems" have "allocated (heap w1 a)"
    by (rule evolves_allocated)
  then have "whitelist (heap w1 a) \<noteq> None" by (simp add: allocated_def)
  from whitelist_add_total[OF this] obtain w2 where
    "whitelist_add (rule_numbers ids) a w1 = Inr w2" by blast
  with c show ?case by auto
next
  case (8 ids ds f a w)
  from "8.IH"[OF "8.prems"] obtain r w1 where c: "call_rule ds f a w = Inr (r, w1)" by blast
  from call_rule_evolves[OF c] "8.prems" have "allocated (heap w1 a)"
    by (rule evolves_allocated)
  then have "blacklist (heap w1 a) \<noteq> None" by (simp add: allocated_def)
  from blacklist_add_total[OF this] obtain w2 where
    "blacklist_add (rule_numbers ids) a w1 = Inr w2" by blast
  with c show ?case by auto
qed auto

lemma run_rule_evolves: "run_rule a r w = Inr w' \<Longrightarrow> evolves a w w'"
  by (auto simp: run_rule_def evolves_refl split: option.splits if_splits sum.splits
      dest: call_rule_evolves)

lemma run_rule_total:
  assumes "allocated (heap w a)" and "map_of (rule_number_to_rule w) r \<noteq> None"
  shows "\<exists>w'. run_rule a r w = Inr w'"
proof -
  from assms(1) obtain wl where wl: "whitelist (heap w a) = Some wl"
    by (auto simp: allocated_def)
  from assms(2) obtain rl where rl: "map_of (rule_number_to_rule w) r = Some rl" by auto
  from call_rule_total[OF assms(1)] obtain res w' where
    "call_rule (decorators rl) (body rl) a w = Inr (res, w')" by blast
  with wl rl show ?thesis by (simp add: run_rule_def)
qed

lemma run_rules_evolves: "run_rules a rs w = Inr w' \<Longrightarrow> evolves a w w'"
proof (induction rs arbitrary: w)
  case Nil
  then show ?case by (simp add: evolves_refl)
next
  case (Cons r rs)
  from Cons.prems obtain w1 where 1: "run_rule a r w = Inr w1" and 2: "run_rules a rs w1 = Inr w'"
    by (auto split: sum.splits)
  from run_rule_evolves[OF 1] Cons.IH[OF 2] show ?case by (rule evolves_trans)
qed

lemma run_rules_total:
  assumes "allocated (heap w a)"
    and "\<forall>r \<in> set rs. map_of (rule_number_to_rule w) r \<noteq> None"
  shows "\<exists>w'. run_rules a rs w = Inr w'"
  using assms
proof (induction rs arbitrary: w)
  case Nil
  then show ?case by simp
next
  case (Cons r rs)
  from run_rule_total[of w a r] Cons.prems obtain w1 where 1: "run_rule a r w = Inr w1"
    by auto
  have ev: "evolves a w w1" using 1 by (rule run_rule_evolves)
  then have "allocated (heap w1 a)" using Cons.prems(1) by (rule evolves_allocated)
  moreover have "\<forall>r \<in> set rs. map_of (rule_number_to_rule w1) r \<noteq> None"
    using ev Cons.prems(2) by (simp add: evolves_def)
  ultimately obtain w' where "run_rules a rs w1 = Inr w'" using Cons.IH by blast
  with 1 show ?case by simp
qed

lemma evolves_visited: "evolves a w w' \<Longrightarrow> visited a w w'"
  unfolding visited_def by (rule exI[of _ "[]"]) simp

lemma apply_rules_visited: "apply_rules a w = Inr w' \<Longrightarrow> visited a w w'"
proof (cases "bucket w (Some (kind (heap w a))) (Some (length (bonds (heap w a))))")
  case None
  assume "apply_rules a w = Inr w'"
  with None obtain m where w': "w' = warn m w" and m: "coverage_warning (kind (heap w a)) m"
    by (auto simp: apply_rules_def bucket_def split: option.splits)
  show ?thesis unfolding visited_def
    by (rule exI[of _ "[m]"]) (simp add: w' m warn_def evolves_refl)
next
  case (Some rs)
  assume "apply_rules a w = Inr w'"
  with Some have "run_rules a rs w = Inr w'"
    by (auto simp: apply_rules_def bucket_def split: option.splits)
  then show ?thesis by (intro evolves_visited run_rules_evolves)
qed

lemma apply_rules_total:
  assumes "allocated (heap w a)" and "registry_ok w"
  shows "\<exists>w'. apply_rules a w = Inr w'"
proof (cases "bucket w (Some (kind (heap w a))) (Some (length (bonds (heap w a))))")
  case None
  then show ?thesis by (auto simp: apply_rules_def bucket_def split: option.splits)
next
  case (Some rs)
  then have "\<forall>r \<in> set rs. map_of (rule_number_to_rule w) r \<noteq> None"
    using assms(2) unfolding registry_ok_def by blast
  from run_rules_total[OF assms(1) this] Some show ?thesis
    by (auto simp: apply_rules_def bucket_def split: option.splits)
qed

subsection \<open>Rounds\<close>

lemma round_step_refl: "round_step as w w"
  by (simp add: round_step_def grows_refl)

lemma round_step_port:
  assumes "round_step as w w'"
  shows "round_step (a # as) w w'"
  using assms unfolding round_step_def by auto

lemma visited_kind: "visited a w w1 \<Longrightarrow> kind (heap w1 x) = kind (heap w x)"
  by (cases "x = a") (auto simp: visited_def evolves_def grows_def)

lemma visited_grows: "visited a w w1 \<Longrightarrow> grows (heap w x) (heap w1 x)"
  by (cases "x = a") (auto simp: visited_def evolves_def grows_refl)

lemma visited_other: "visited a w w1 \<Longrightarrow> x \<noteq> a \<Longrightarrow> heap w1 x = heap w x"
  by (auto simp: visited_def evolves_def)

lemma round_step_visit:
  assumes v: "visited a w w1" and k: "kind (heap w a) \<noteq> ''G''" and r: "round_step as w1 w'"
  shows "round_step (a # as) w w'"
proof -
  from v obtain ms1 where e: "evolves a (w\<lparr>warnings := warnings w @ ms1\<rparr>) w1"
    and c1: "\<forall>m \<in> set ms1. coverage_warning (kind (heap w a)) m"
    unfolding visited_def by blast
  from r obtain ms2 where w2: "warnings w' = warnings w1 @ ms2"
    and c2: "\<forall>m \<in> set ms2. \<exists>b \<in> set as.
               kind (heap w1 b) \<noteq> ''G'' \<and> coverage_warning (kind (heap w1 b)) m"
    unfolding round_step_def by blast
  have kinds: "\<And>x. kind (heap w1 x) = kind (heap w x)" using v by (rule visited_kind)
  have "\<forall>x. grows (heap w x) (heap w' x)"
    using visited_grows[OF v] r unfolding round_step_def by (blast intro: grows_trans)
  moreover have "\<forall>x. x \<notin> set (a # as) \<or> kind (heap w x) = ''G'' \<longrightarrow>
          heap w' x = heap w x \<and> neighbor_types_map w' x = neighbor_types_map w x"
    using e r k kinds unfolding round_step_def evolves_def by (simp; metis)
  moreover have "rule_number_to_rule w' = rule_number_to_rule w" "rule_map w' = rule_map w"
    using e r unfolding round_step_def evolves_def by simp_all
  moreover have "\<forall>x t. neighbor_types_map w x = Some t \<longrightarrow> neighbor_types_map w' x = Some t"
    using e r unfolding round_step_def evolves_def by (simp; metis)
  moreover have "\<exists>ms. warnings w' = warnings w @ ms \<and>
           (\<forall>m \<in> set ms. \<exists>a' \<in> set (a # as).
              kind (heap w a') \<noteq> ''G'' \<and> coverage_warning (kind (heap w a')) m)"
  proof (intro exI conjI)
    show "warnings w' = warnings w @ (ms1 @ ms2)"
      using e w2 by (simp add: evolves_def)
    show "\<forall>m \<in> set (ms1 @ ms2). \<exists>a' \<in> set (a # as).
              kind (heap w a') \<noteq> ''G'' \<and> coverage_warning (kind (heap w a')) m"
      using c1 c2 k kinds by auto
  qed
  ultimately show ?thesis unfolding round_step_def by blast
qed

lemma lists_len_size: "lists_len x = Inr k \<Longrightarrow> k = list_size x \<and> allocated x"
  by (auto simp: lists_len_def list_size_def allocated_def split: option.splits)

lemma lists_len_allocated: "allocated x \<Longrightarrow> lists_len x = Inr (list_size x)"
  by (auto simp: lists_len_def list_size_def allocated_def)

lemma visit_atoms_step:
  "visit_atoms as (w, old_len, new_len) = Inr (w', old_len', new_len') \<Longrightarrow> round_step as w w'"
proof (induction as arbitrary: w old_len new_len)
  case Nil
  then show ?case by (simp add: round_step_refl)
next
  case (Cons a as)
  from Cons.prems obtain k where k: "lists_len (heap w a) = Inr k"
    by (auto split: sum.splits)
  show ?case
  proof (cases "kind (heap w a) = ''G''")
    case True
    with Cons.prems k have "visit_atoms as (w, old_len + k, new_len) = Inr (w', old_len', new_len')"
      by simp
    then show ?thesis by (intro round_step_port Cons.IH)
  next
    case False
    with Cons.prems k obtain w1 k' where a: "apply_rules a w = Inr w1"
      and "visit_atoms as (w1, old_len + k, new_len + k') = Inr (w', old_len', new_len')"
      by (auto split: sum.splits)
    then have "round_step as w1 w'" by (intro Cons.IH)
    with apply_rules_visited[OF a] False show ?thesis by (intro round_step_visit)
  qed
qed

lemma visit_atoms_total:
  assumes "\<forall>a \<in> set as. allocated (heap w a)" and "registry_ok w"
  shows "\<exists>w' ol nl. visit_atoms as (w, old_len, new_len) = Inr (w', ol, nl)"
  using assms
proof (induction as arbitrary: w old_len new_len)
  case Nil
  then show ?case by simp
next
  case (Cons a as)
  have al: "allocated (heap w a)" using Cons.prems(1) by simp
  note k = lists_len_allocated[OF al]
  show ?case
  proof (cases "kind (heap w a) = ''G''")
    case True
    from Cons.IH[of w] Cons.prems obtain w' ol nl where
      "visit_atoms as (w, old_len + list_size (heap w a), new_len) = Inr (w', ol, nl)" by force
    with True k show ?thesis by auto
  next
    case False
    from apply_rules_total[OF al Cons.prems(2)] obtain w1 where a: "apply_rules a w = Inr w1"
      by blast
    note v = apply_rules_visited[OF a]
    have al1: "\<forall>x \<in> set (a # as). allocated (heap w1 x)"
      using Cons.prems(1) visited_grows[OF v] by (auto dest: grows_allocated)
    have "registry_ok w1"
      using v Cons.prems(2) by (auto simp: registry_ok_def bucket_def visited_def evolves_def)
    with Cons.IH[of w1] al1 obtain w' ol nl where
      "visit_atoms as (w1, old_len + list_size (heap w a), new_len + list_size (heap w1 a))
         = Inr (w', ol, nl)"
      by force
    with False k a lists_len_allocated[of "heap w1 a"] al1 show ?thesis by auto
  qed
qed

lemma total_len_cong: "(\<And>a. a \<in> set as \<Longrightarrow> h a = h' a) \<Longrightarrow> total_len h as = total_len h' as"
  unfolding total_len_def by (induction as) auto

lemma visit_atoms_sums:
  assumes "distinct as"
    and "visit_atoms as (w, old_len, new_len) = Inr (w', old_len', new_len')"
  shows "old_len' = old_len + total_len (heap w) as \<and>
         new_len' = new_len + total_len (heap w') (filter (\<lambda>a. kind (heap w a) \<noteq> ''G'') as)"
  using assms
proof (induction as arbitrary: w old_len new_len)
  case Nil
  then show ?case by (simp add: total_len_def)
next
  case (Cons a as)
  from Cons.prems obtain k where k: "lists_len (heap w a) = Inr k"
    by (auto split: sum.splits)
  then have k_eq: "k = list_size (heap w a)" by (simp add: lists_len_size)
  have d: "distinct as" and na: "a \<notin> set as" using Cons.prems(1) by auto
  show ?case
  proof (cases "kind (heap w a) = ''G''")
    case True
    with Cons.prems k have "visit_atoms as (w, old_len + k, new_len) = Inr (w', old_len', new_len')"
      by simp
    from Cons.IH[OF d this] True k_eq show ?thesis by (simp add: total_len_def)
  next
    case False
    with Cons.prems k obtain w1 k' where a: "apply_rules a w = Inr w1"
      and k': "lists_len (heap w1 a) = Inr k'"
      and rest: "visit_atoms as (w1, old_len + k, new_len + k') = Inr (w', old_len', new_len')"
      by (auto split: sum.splits)
    note v = apply_rules_visited[OF a]
    note r = visit_atoms_step[OF rest]
    have same: "total_len (heap w1) as = total_len (heap w) as"
    proof (rule total_len_cong)
      fix x assume "x \<in> set as"
      with na have "x \<noteq> a" by auto
      then show "heap w1 x = heap w x" by (rule visited_other[OF v])
    qed
    have "heap w' a = heap w1 a" using r na by (simp add: round_step_def)
    then have ka: "list_size (heap w' a) = k'" using k' by (auto dest: lists_len_size)
    have filt: "filter (\<lambda>x. kind (heap w1 x) \<noteq> ''G'') as = filter (\<lambda>x. kind (heap w x) \<noteq> ''G'') as"
      by (simp add: visited_kind[OF v])
    from Cons.IH[OF d rest] same ka filt k_eq False show ?thesis
      by (simp add: total_len_def)
  qed
qed

lemma round_step_ready:
  assumes "ready c w" and "round_step (yield_atoms c) w w'"
  shows "ready c w'"
proof -
  have g: "\<And>x. grows (heap w x) (heap w' x)" using assms(2) by (simp add: round_step_def)
  have "\<forall>a \<in> set (yield_atoms c). allocated (heap w' a)"
    using assms(1) g by (auto simp: ready_def dest: grows_allocated)
  moreover have "\<forall>a \<in> set (yield_atoms c). kind (heap w' a) = ''G'' \<longrightarrow> list_size (heap w' a) = 0"
  proof (intro ballI impI)
    fix a assume a: "a \<in> set (yield_atoms c)" and "kind (heap w' a) = ''G''"
    then have kg: "kind (heap w a) = ''G''" using g[of a] by (simp add: grows_def)
    then have "heap w' a = heap w a" using assms(2) by (simp add: round_step_def)
    with assms(1) a kg show "list_size (heap w' a) = 0" by (simp add: ready_def)
  qed
  moreover have "registry_ok w'"
    using assms by (simp add: ready_def round_step_def registry_ok_def bucket_def)
  ultimately show ?thesis using assms(1) by (simp add: ready_def)
qed

lemma total_len_ports:
  assumes "\<forall>a \<in> set as. kind (h0 a) = ''G'' \<longrightarrow> list_size (h a) = 0"
  shows "total_len h (filter (\<lambda>a. kind (h0 a) \<noteq> ''G'') as) = total_len h as"
  using assms unfolding total_len_def by (induction as) auto

lemma ready_round:
  assumes "ready c w"
  shows "visit_atoms (yield_atoms c) (w, 0, 0) =
           Inr (round_of c w, total_len (heap w) (yield_atoms c),
                total_len (heap (round_of c w)) (yield_atoms c))
         \<and> round_step (yield_atoms c) w (round_of c w) \<and> ready c (round_of c w)"
proof -
  from assms have "\<forall>a \<in> set (yield_atoms c). allocated (heap w a)" "registry_ok w"
    by (simp_all add: ready_def)
  from visit_atoms_total[OF this] obtain w' ol nl where
    v: "visit_atoms (yield_atoms c) (w, 0, 0) = Inr (w', ol, nl)"
    by blast
  then have ro: "round_of c w = w'" by (simp add: round_of_def)
  note st = visit_atoms_step[OF v]
  have rd: "ready c w'" using assms st by (rule round_step_ready)
  have d: "distinct (yield_atoms c)" using assms by (simp add: ready_def)
  have kinds: "\<And>x. kind (heap w' x) = kind (heap w x)"
    using st by (simp add: round_step_def grows_def)
  have "\<forall>a \<in> set (yield_atoms c). kind (heap w a) = ''G'' \<longrightarrow> list_size (heap w' a) = 0"
    using rd kinds by (simp add: ready_def)
  from total_len_ports[OF this] visit_atoms_sums[OF d v]
  have "ol = total_len (heap w) (yield_atoms c)" "nl = total_len (heap w') (yield_atoms c)"
    by simp_all
  with v ro st rd show ?thesis by simp
qed

lemma round_step_trans:
  assumes "round_step as w1 w2" and "round_step as w2 w3"
  shows "round_step as w1 w3"
proof -
  have kinds: "\<And>x. kind (heap w2 x) = kind (heap w1 x)"
    using assms(1) by (simp add: round_step_def grows_def)
  from assms(1) obtain ms1 where m1: "warnings w2 = warnings w1 @ ms1"
    and c1: "\<forall>m \<in> set ms1. \<exists>a \<in> set as.
               kind (heap w1 a) \<noteq> ''G'' \<and> coverage_warning (kind (heap w1 a)) m"
    unfolding round_step_def by blast
  from assms(2) obtain ms2 where m2: "warnings w3 = warnings w2 @ ms2"
    and c2: "\<forall>m \<in> set ms2. \<exists>a \<in> set as.
               kind (heap w2 a) \<noteq> ''G'' \<and> coverage_warning (kind (heap w2 a)) m"
    unfolding round_step_def by blast
  have "\<forall>x. grows (heap w1 x) (heap w3 x)"
    using assms unfolding round_step_def by (blast intro: grows_trans)
  moreover have "\<forall>x. x \<notin> set as \<or> kind (heap w1 x) = ''G'' \<longrightarrow>
          heap w3 x = heap w1 x \<and> neighbor_types_map w3 x = neighbor_types_map w1 x"
    using assms kinds unfolding round_step_def by (simp; metis)
  moreover have "rule_number_to_rule w3 = rule_number_to_rule w1" "rule_map w3 = rule_map w1"
    using assms unfolding round_step_def by simp_all
  moreover have "\<forall>x t. neighbor_types_map w1 x = Some t \<longrightarrow> neighbor_types_map w3 x = Some t"
    using assms unfolding round_step_def by (simp; metis)
  moreover have "\<exists>ms. warnings w3 = warnings w1 @ ms \<and>
           (\<forall>m \<in> set ms. \<exists>a \<in> set as.
              kind (heap w1 a) \<noteq> ''G'' \<and> coverage_warning (kind (heap w1 a)) m)"
  proof (intro exI conjI)
    show "warnings w3 = warnings w1 @ (ms1 @ ms2)" using m1 m2 by simp
    show "\<forall>m \<in> set (ms1 @ ms2). \<exists>a \<in> set as.
              kind (heap w1 a) \<noteq> ''G'' \<and> coverage_warning (kind (heap w1 a)) m"
      using c1 c2 kinds by auto
  qed
  ultimately show ?thesis unfolding round_step_def by blast
qed

lemma run_rounds_step:
  "run_rounds k c w = Inr (w', n) \<Longrightarrow>
     n \<le> k \<and> (\<exists>w0. round_step (yield_atoms c) w w0 \<and> (w' = w0 \<or> w' = warn MaxIterations w0))"
proof (induction k arbitrary: w w' n)
  case 0
  then show ?case by (auto intro: round_step_refl)
next
  case (Suc k)
  from Suc.prems obtain w1 ol nl where
    v: "visit_atoms (yield_atoms c) (w, 0, 0) = Inr (w1, ol, nl)"
    by (auto split: sum.splits)
  note st = visit_atoms_step[OF v]
  show ?case
  proof (cases "ol = nl")
    case True
    with Suc.prems v have "w' = w1" "n = 1" by simp_all
    with st show ?thesis by auto
  next
    case False
    with Suc.prems v obtain n' where r: "run_rounds k c w1 = Inr (w', n')" and n: "n = Suc n'"
      by (auto split: sum.splits)
    from Suc.IH[OF r] obtain w0 where "n' \<le> k" "round_step (yield_atoms c) w1 w0"
      "w' = w0 \<or> w' = warn MaxIterations w0" by blast
    with st n show ?thesis by (auto intro: round_step_trans)
  qed
qed

lemma world_after_ready: "ready c w \<Longrightarrow> ready c (world_after j c w)"
  by (induction j arbitrary: w) (auto dest: ready_round)

lemma world_after_step: "ready c w \<Longrightarrow> round_step (yield_atoms c) w (world_after j c w)"
proof (induction j arbitrary: w)
  case 0
  then show ?case by (simp add: round_step_refl)
next
  case (Suc j)
  from ready_round[OF Suc.prems] have "round_step (yield_atoms c) w (round_of c w)"
    and "ready c (round_of c w)" by simp_all
  with Suc.IH[of "round_of c w"] show ?case by (auto intro: round_step_trans)
qed

lemma total_after_Suc: "total_after (Suc j) c w = total_after j c (round_of c w)"
  by (simp add: total_after_def)

lemma run_rounds_char:
  assumes "ready c w"
  shows "(\<forall>j<k. (\<forall>i<j. total_after i c w \<noteq> total_after (Suc i) c w) \<and>
                total_after j c w = total_after (Suc j) c w \<longrightarrow>
                run_rounds k c w = Inr (world_after (Suc j) c w, Suc j)) \<and>
         ((\<forall>j<k. total_after j c w \<noteq> total_after (Suc j) c w) \<longrightarrow>
                run_rounds k c w = Inr (warn MaxIterations (world_after k c w), k))"
  using assms
proof (induction k arbitrary: w)
  case 0
  then show ?case by simp
next
  case (Suc k)
  let ?w1 = "round_of c w"
  from ready_round[OF Suc.prems] have
    v: "visit_atoms (yield_atoms c) (w, 0, 0) =
          Inr (?w1, total_after 0 c w, total_after (Suc 0) c w)"
    and rd: "ready c ?w1"
    by (simp_all add: total_after_def)
  note IH = Suc.IH[OF rd]
  have part1: "run_rounds (Suc k) c w = Inr (world_after (Suc j) c w, Suc j)"
    if j: "j < Suc k" and ne: "\<forall>i<j. total_after i c w \<noteq> total_after (Suc i) c w"
      and eq: "total_after j c w = total_after (Suc j) c w" for j
  proof (cases j)
    case 0
    with eq v show ?thesis by simp
  next
    case (Suc j')
    with ne have first: "total_after 0 c w \<noteq> total_after (Suc 0) c w" by blast
    have "\<forall>i<j'. total_after i c ?w1 \<noteq> total_after (Suc i) c ?w1"
      using ne Suc by (auto simp: total_after_Suc[symmetric])
    moreover have "total_after j' c ?w1 = total_after (Suc j') c ?w1"
      using eq Suc by (simp add: total_after_Suc[symmetric])
    moreover have "j' < k" using j Suc by simp
    ultimately have "run_rounds k c ?w1 = Inr (world_after (Suc j') c ?w1, Suc j')"
      using IH by blast
    with v first Suc show ?thesis by simp
  qed
  have part2: "run_rounds (Suc k) c w = Inr (warn MaxIterations (world_after (Suc k) c w), Suc k)"
    if ne: "\<forall>j<Suc k. total_after j c w \<noteq> total_after (Suc j) c w"
  proof -
    from ne have first: "total_after 0 c w \<noteq> total_after (Suc 0) c w" by blast
    have "\<forall>j<k. total_after j c ?w1 \<noteq> total_after (Suc j) c ?w1"
      using ne by (auto simp: total_after_Suc[symmetric])
    then have "run_rounds k c ?w1 = Inr (warn MaxIterations (world_after k c ?w1), k)"
      using IH by blast
    with v first show ?thesis by simp
  qed
  from part1 part2 show ?case by blast
qed

lemma run_rounds_total:
  assumes "ready c w"
  shows "\<exists>w' n. run_rounds k c w = Inr (w', n)"
  using assms
proof (induction k arbitrary: w)
  case 0
  then show ?case by simp
next
  case (Suc k)
  from ready_round[OF Suc.prems] obtain ol nl where
    v: "visit_atoms (yield_atoms c) (w, 0, 0) = Inr (round_of c w, ol, nl)"
    and rd: "ready c (round_of c w)" by blast
  from Suc.IH[OF rd] obtain w' n where "run_rounds k c (round_of c w) = Inr (w', n)" by blast
  with v show ?case by (cases "ol = nl") auto
qed

subsection \<open>The final loop\<close>

lemma resolve_frame:
  "resolve i as w = Inr w' \<Longrightarrow>
     (\<forall>x. kind (heap w' x) = kind (heap w x) \<and> bonds (heap w' x) = bonds (heap w x) \<and>
          whitelist (heap w' x) = whitelist (heap w x) \<and>
          blacklist (heap w' x) = blacklist (heap w x)) \<and>
     (\<forall>x. x \<notin> set as \<longrightarrow> heap w' x = heap w x) \<and>
     rule_number_to_rule w' = rule_number_to_rule w \<and> rule_map w' = rule_map w \<and>
     neighbor_types_map w' = neighbor_types_map w \<and>
     (\<exists>ms. warnings w' = warnings w @ ms \<and>
        (\<forall>m \<in> set ms. \<exists>j a ts. a \<in> set as \<and> m = CheckTopology j (kind (heap w a)) ts))"
proof (induction as arbitrary: i w)
  case Nil
  then show ?case by simp
next
  case (Cons a as)
  from Cons.prems obtain wl bl where wl: "whitelist (heap w a) = Some wl"
    and bl: "blacklist (heap w a) = Some bl"
    by (auto split: option.splits)
  define w1 where "w1 = (case oset_diff wl bl of
       [t] \<Rightarrow> w\<lparr>heap := (heap w)(a := (heap w a)\<lparr>atomtype := Some (TypeList [t])\<rparr>)\<rparr>
     | ts \<Rightarrow> (warn (CheckTopology i (kind (heap w a)) ts) w)
               \<lparr>heap := (heap w)(a := (heap w a)\<lparr>atomtype := Some (TypeStr (join '', '' ts))\<rparr>)\<rparr>)"
  have r: "resolve (Suc i) as w1 = Inr w'"
    using Cons.prems wl bl unfolding w1_def by (auto split: list.splits)
  have h1: "\<forall>x. kind (heap w1 x) = kind (heap w x) \<and> bonds (heap w1 x) = bonds (heap w x) \<and>
          whitelist (heap w1 x) = whitelist (heap w x) \<and>
          blacklist (heap w1 x) = blacklist (heap w x)"
    unfolding w1_def by (auto simp: warn_def split: list.splits)
  have h2: "\<forall>x. x \<noteq> a \<longrightarrow> heap w1 x = heap w x"
    unfolding w1_def by (auto simp: warn_def split: list.splits)
  have h3: "rule_number_to_rule w1 = rule_number_to_rule w \<and> rule_map w1 = rule_map w \<and>
     neighbor_types_map w1 = neighbor_types_map w"
    unfolding w1_def by (auto simp: warn_def split: list.splits)
  have h4: "\<exists>ms. warnings w1 = warnings w @ ms \<and>
        (\<forall>m \<in> set ms. \<exists>j ts. m = CheckTopology j (kind (heap w a)) ts)"
    unfolding w1_def by (auto simp: warn_def split: list.splits)
  from h4 obtain ms1 where m1: "warnings w1 = warnings w @ ms1"
    and c1: "\<forall>m \<in> set ms1. \<exists>j ts. m = CheckTopology j (kind (heap w a)) ts" by blast
  from Cons.IH[OF r] obtain ms2 where m2: "warnings w' = warnings w1 @ ms2"
    and c2: "\<forall>m \<in> set ms2. \<exists>j b ts. b \<in> set as \<and> m = CheckTopology j (kind (heap w1 b)) ts"
    by blast
  have warns: "\<exists>ms. warnings w' = warnings w @ ms \<and>
        (\<forall>m \<in> set ms. \<exists>j b ts. b \<in> set (a # as) \<and> m = CheckTopology j (kind (heap w b)) ts)"
  proof (rule exI[of _ "ms1 @ ms2"], intro conjI ballI)
    show "warnings w' = warnings w @ (ms1 @ ms2)" using m1 m2 by simp
    fix m assume "m \<in> set (ms1 @ ms2)"
    then consider "m \<in> set ms1" | "m \<in> set ms2" by auto
    then show "\<exists>j b ts. b \<in> set (a # as) \<and> m = CheckTopology j (kind (heap w b)) ts"
    proof cases
      case 1
      with c1 obtain j ts where "m = CheckTopology j (kind (heap w a)) ts" by blast
      then show ?thesis by (intro exI[of _ j] exI[of _ a] exI[of _ ts]) simp
    next
      case 2
      with c2 obtain j b ts where "b \<in> set as" "m = CheckTopology j (kind (heap w1 b)) ts"
        by blast
      with h1 show ?thesis by (intro exI[of _ j] exI[of _ b] exI[of _ ts]) simp
    qed
  qed
  have rest: "(\<forall>x. kind (heap w' x) = kind (heap w x) \<and> bonds (heap w' x) = bonds (heap w x) \<and>
          whitelist (heap w' x) = whitelist (heap w x) \<and>
          blacklist (heap w' x) = blacklist (heap w x)) \<and>
     (\<forall>x. x \<notin> set (a # as) \<longrightarrow> heap w' x = heap w x) \<and>
     rule_number_to_rule w' = rule_number_to_rule w \<and> rule_map w' = rule_map w \<and>
     neighbor_types_map w' = neighbor_types_map w"
    using Cons.IH[OF r] h1 h2 h3 by simp
  from rest warns show ?case by blast
qed

subsection \<open>The registry and the catalogue\<close>

lemma file_rule_frame:
  "heap (file_rule rn (decorators r) w) = heap w \<and>
   rule_number_to_rule (file_rule rn (decorators r) w) = rule_number_to_rule w \<and>
   neighbor_types_map (file_rule rn (decorators r) w) = neighbor_types_map w"
  by (simp add: file_rule_def warn_def Let_def split: prod.splits)

lemma file_rule_bucket:
  "bucket (file_rule rn (decorators r) w) et nc =
     (if (et, nc) = declared r then Some (bucket_list w et nc @ [rn]) else bucket w et nc)"
  by (auto simp: file_rule_def declared_def bucket_def bucket_list_def warn_def Let_def
      split: prod.splits option.splits)

lemma file_rule_bucket_list:
  "bucket_list (file_rule rn (decorators r) w) et nc =
     (if (et, nc) = declared r then bucket_list w et nc @ [rn] else bucket_list w et nc)"
  by (simp add: bucket_list_def[of "file_rule rn (decorators r) w"] file_rule_bucket)
     (simp add: bucket_list_def)

lemma file_rule_warnings:
  "warnings (file_rule rn (decorators r) w) =
     warnings w @ (if falsy_element (fst (declared r)) then [NoElementType rn] else [])
                @ (if falsy_count (snd (declared r)) then [NoNeighborCount rn] else [])"
  by (simp add: file_rule_def declared_def warn_def Let_def split: prod.splits)

lemma fold_register_frame:
  "heap (fold (\<lambda>(rn, r). file_rule rn (decorators r)) rs w) = heap w \<and>
   rule_number_to_rule (fold (\<lambda>(rn, r). file_rule rn (decorators r)) rs w) = rule_number_to_rule w \<and>
   neighbor_types_map (fold (\<lambda>(rn, r). file_rule rn (decorators r)) rs w) = neighbor_types_map w"
  by (induction rs arbitrary: w) (auto simp: file_rule_frame)

lemma fold_register_bucket_list:
  "bucket_list (fold (\<lambda>(rn, r). file_rule rn (decorators r)) rs w) et nc =
     bucket_list w et nc @ map fst (filter (\<lambda>(rn, r). declared r = (et, nc)) rs)"
  by (induction rs arbitrary: w) (auto simp: file_rule_bucket_list)

lemma fold_register_warnings:
  "\<exists>ms. warnings (fold (\<lambda>(rn, r). file_rule rn (decorators r)) rs w) = warnings w @ ms \<and>
        (\<forall>m \<in> set ms. \<exists>rn. m = NoElementType rn \<or> m = NoNeighborCount rn) \<and>
        (\<forall>(rn, r) \<in> set rs.
            (falsy_element (fst (declared r)) \<longrightarrow> NoElementType rn \<in> set ms) \<and>
            (falsy_count (snd (declared r)) \<longrightarrow> NoNeighborCount rn \<in> set ms))"
proof (induction rs arbitrary: w)
  case Nil
  then show ?case by simp
next
  case (Cons x rs)
  obtain rn r where x: "x = (rn, r)" by (cases x)
  let ?w1 = "file_rule rn (decorators r) w"
  let ?new = "(if falsy_element (fst (declared r)) then [NoElementType rn] else [])
                @ (if falsy_count (snd (declared r)) then [NoNeighborCount rn] else [])"
  from Cons.IH[of ?w1] obtain ms where
    1: "warnings (fold (\<lambda>(rn, r). file_rule rn (decorators r)) rs ?w1) = warnings ?w1 @ ms"
    and 2: "\<forall>m \<in> set ms. \<exists>rn. m = NoElementType rn \<or> m = NoNeighborCount rn"
    and 3: "\<forall>(rn, r) \<in> set rs.
            (falsy_element (fst (declared r)) \<longrightarrow> NoElementType rn \<in> set ms) \<and>
            (falsy_count (snd (declared r)) \<longrightarrow> NoNeighborCount rn \<in> set ms)"
    by blast
  show ?case
  proof (rule exI[of _ "?new @ ms"], intro conjI)
    show "warnings (fold (\<lambda>(rn, r). file_rule rn (decorators r)) (x # rs) w) = warnings w @ ?new @ ms"
      using 1 x by (simp add: file_rule_warnings)
    show "\<forall>m \<in> set (?new @ ms). \<exists>rn. m = NoElementType rn \<or> m = NoNeighborCount rn"
      using 2 by auto
    show "\<forall>(rn, r) \<in> set (x # rs).
            (falsy_element (fst (declared r)) \<longrightarrow> NoElementType rn \<in> set (?new @ ms)) \<and>
            (falsy_count (snd (declared r)) \<longrightarrow> NoNeighborCount rn \<in> set (?new @ ms))"
      using 3 x by auto
  qed
qed

lemma register_rules_decorated:
  "\<forall>(rn, r) \<in> set rs. decorators r \<noteq> [] \<Longrightarrow>
     register_rules rs w = Inr (fold (\<lambda>(rn, r). file_rule rn (decorators r)) rs w)"
  by (induction rs arbitrary: w) (auto simp: get_decorator_objects_by_type_def)

lemma register_rules_bare:
  "\<exists>(rn, r) \<in> set rs. decorators r = [] \<Longrightarrow> register_rules rs w = Inl TypeError"
proof (induction rs arbitrary: w)
  case Nil
  then show ?case by simp
next
  case (Cons x rs)
  obtain rn r where x: "x = (rn, r)" by (cases x)
  show ?case
  proof (cases "decorators r = []")
    case True
    with x show ?thesis by (simp add: get_decorator_objects_by_type_def)
  next
    case False
    with Cons.prems x have "\<exists>(rn, r) \<in> set rs. decorators r = []" by auto
    from Cons.IH[OF this] False x show ?thesis
      by (simp add: get_decorator_objects_by_type_def)
  qed
qed

text \<open>The build returns when every rule function is decorated, and raises the type error
  otherwise.\<close>

lemma build_rule_map_decorated: "decorated w \<Longrightarrow> build_rule_map w = Inr (filed w)"
  by (simp add: build_rule_map_def decorated_def filed_def register_rules_decorated)

lemma build_rule_map_bare: "\<not> decorated w \<Longrightarrow> build_rule_map w = Inl TypeError"
  unfolding build_rule_map_def decorated_def by (rule register_rules_bare) auto

lemma build_rule_map_Inr: "build_rule_map w = Inr w' \<Longrightarrow> decorated w \<and> w' = filed w"
  using build_rule_map_decorated[of w] build_rule_map_bare[of w] by (cases "decorated w") auto

lemma bucket_member: "bucket w et nc = Some rs \<Longrightarrow> r \<in> set rs \<Longrightarrow> r \<in> set (bucket_list w et nc)"
  by (simp add: bucket_list_def)

lemma filed_registry:
  assumes "registry_ok w"
  shows "registry_ok (filed w)"
  unfolding registry_ok_def
proof (intro allI impI)
  fix et nc rs r
  assume b: "bucket (filed w) et nc = Some rs" and r: "r \<in> set rs"
  let ?rules = "rule_number_to_rule w"
  from bucket_member[OF b r]
  have "r \<in> set (bucket_list w et nc) \<or> r \<in> fst ` set ?rules"
    by (auto simp: filed_def fold_register_bucket_list)
  then have "map_of ?rules r \<noteq> None"
  proof
    assume "r \<in> set (bucket_list w et nc)"
    then obtain rs' where "bucket w et nc = Some rs'" "r \<in> set rs'"
      by (cases "bucket w et nc") (auto simp: bucket_list_def)
    then show ?thesis using assms unfolding registry_ok_def by blast
  next
    assume "r \<in> fst ` set ?rules"
    then show ?thesis by (simp add: map_of_eq_None_iff)
  qed
  then show "map_of (rule_number_to_rule (filed w)) r \<noteq> None"
    by (simp add: filed_def fold_register_frame)
qed

lemma map_of_dict_set: "map_of (dict_set k v kvs) = (map_of kvs)(k \<mapsto> v)"
  by (induction kvs) (auto simp: fun_eq_iff)

lemma dict_set_keys:
  "map fst (dict_set k v kvs) = (if k \<in> fst ` set kvs then map fst kvs else map fst kvs @ [k])"
  by (induction kvs) force+

lemma dict_set_distinct: "distinct (map fst kvs) \<Longrightarrow> distinct (map fst (dict_set k v kvs))"
  by (simp add: dict_set_keys)

lemma load_rules_frame:
  "load_rules cat w = Inr w' \<Longrightarrow>
     heap w' = heap w \<and> rule_map w' = rule_map w \<and>
     neighbor_types_map w' = neighbor_types_map w \<and> warnings w' = warnings w \<and>
     (\<forall>k. map_of (rule_number_to_rule w) k \<noteq> None \<longrightarrow> map_of (rule_number_to_rule w') k \<noteq> None) \<and>
     (distinct (map fst (rule_number_to_rule w)) \<longrightarrow> distinct (map fst (rule_number_to_rule w')))"
proof (induction cat arbitrary: w)
  case Nil
  then show ?case by simp
next
  case (Cons x cat)
  obtain fn fcn where x: "x = (fn, fcn)" by (cases x)
  show ?case
  proof (cases "take 5 fn = ''opls_''")
    case False
    with Cons.prems x have "load_rules cat w = Inr w'" by simp
    then show ?thesis by (rule Cons.IH)
  next
    case True
    with Cons.prems x obtain p q ps where "split_on CHR ''_'' fn = p # q # ps"
      and l: "load_rules cat (w\<lparr>rule_number_to_rule := dict_set q fcn (rule_number_to_rule w)\<rparr>) = Inr w'"
      by (auto split: list.splits)
    from Cons.IH[OF l] show ?thesis
      by (auto simp: map_of_dict_set dict_set_distinct)
  qed
qed

lemma load_rules_registry:
  assumes "registry_ok w" and "load_rules cat w = Inr w'"
  shows "registry_ok w'"
  using assms load_rules_frame[OF assms(2)]
  by (simp add: registry_ok_def bucket_def)

text \<open>A name that starts with the prefix has a second piece, so loading never fails.\<close>

lemma split_on_nonempty: "split_on c s \<noteq> []"
  by (induction s) (auto split: list.splits)

lemma split_on_prefix:
  assumes "take 5 fn = ''opls_''"
  shows "\<exists>p q ps. split_on CHR ''_'' fn = p # q # ps"
proof -
  from assms obtain rest where fn: "fn = ''opls_'' @ rest"
    by (metis append_take_drop_id)
  obtain y ys where "split_on CHR ''_'' rest = y # ys"
    using split_on_nonempty[of "CHR ''_''" rest] by (cases "split_on CHR ''_'' rest") auto
  then show ?thesis unfolding fn by simp
qed

lemma load_rules_total: "\<exists>w'. load_rules cat w = Inr w'"
proof (induction cat arbitrary: w)
  case Nil
  then show ?case by simp
next
  case (Cons x cat)
  obtain fn fcn where x: "x = (fn, fcn)" by (cases x)
  show ?case
  proof (cases "take 5 fn = ''opls_''")
    case False
    with Cons.IH[of w] x show ?thesis by simp
  next
    case True
    from split_on_prefix[OF True] obtain p q ps where s: "split_on CHR ''_'' fn = p # q # ps"
      by blast
    from Cons.IH[of "w\<lparr>rule_number_to_rule := dict_set q fcn (rule_number_to_rule w)\<rparr>"]
    show ?thesis using True x s by simp
  qed
qed

lemma registry_ok_fresh: "registry_ok (fresh h)"
  by (simp add: registry_ok_def bucket_def fresh_def)

lemma fold_prepare_heap:
  "heap (fold prepare as w) x =
     (if x \<in> set as then (heap w x)\<lparr>whitelist := Some [], blacklist := Some []\<rparr> else heap w x)"
  by (induction as arbitrary: w) (auto simp: prepare_def)

lemma fold_prepare_frame:
  "rule_number_to_rule (fold prepare as w) = rule_number_to_rule w \<and>
   rule_map (fold prepare as w) = rule_map w \<and>
   neighbor_types_map (fold prepare as w) = neighbor_types_map w \<and>
   warnings (fold prepare as w) = warnings w"
  by (induction as arbitrary: w) (auto simp: prepare_def)

lemma prepare_ready:
  assumes "distinct (yield_atoms c)" and "registry_ok w"
  shows "ready c (fold prepare (yield_atoms c) w)"
  using assms
  by (simp add: ready_def fold_prepare_heap allocated_def list_size_def registry_ok_def
      bucket_def fold_prepare_frame)

section \<open>The claims\<close>

lemma loaded_registry_ok:
  assumes "decorated (projr (load_rules cat (fresh h)))"
  shows "registry_ok (projr (build_rule_map (projr (load_rules cat (fresh h)))))"
proof -
  obtain w' where l: "load_rules cat (fresh h) = Inr w'"
    using load_rules_total by blast
  from load_rules_registry[OF registry_ok_fresh l] have "registry_ok w'" .
  then have "registry_ok (filed w')" by (rule filed_registry)
  with l assms show ?thesis by (simp add: build_rule_map_decorated)
qed

lemma registry_ok_ex_loaded: "registry_ok ex_loaded"
proof -
  have "decorated (projr (load_rules ex_catalogue (fresh ex_heap)))" by code_simp
  then show ?thesis unfolding ex_loaded_def by (rule loaded_registry_ok)
qed

lemma ready_ex_ready: "ready ex_compound ex_ready"
  unfolding ex_ready_def
  by (rule prepare_ready) (simp_all add: ex_compound_def registry_ok_ex_loaded)








text \<open>
  C3. Across one round over the atoms of a compound, every atom keeps its kind and
  bonds, and its whitelist and its blacklist are only appended to: what was there stays,
  in place, and a list without repetition stays without repetition. Running a rule
  whose identifier is already in the whitelist of the atom leaves the whole world as it
  was.
\<close>

theorem lists_only_grow:
  "(visit_atoms (yield_atoms c) (w, 0, 0) = Inr (w', old_len, new_len) \<longrightarrow>
      (\<forall>x. grows (heap w x) (heap w' x)))
   \<and> (whitelist (heap w a) = Some wl \<and> rule_id \<in> set wl \<longrightarrow> run_rule a rule_id w = Inr w)"
proof (intro conjI impI)
  assume "visit_atoms (yield_atoms c) (w, 0, 0) = Inr (w', old_len, new_len)"
  then have "round_step (yield_atoms c) w w'" by (rule visit_atoms_step)
  then show "\<forall>x. grows (heap w x) (heap w' x)" by (simp add: round_step_def)
next
  assume "whitelist (heap w a) = Some wl \<and> rule_id \<in> set wl"
  then show "run_rule a rule_id w = Inr w" by (simp add: run_rule_def)
qed

theorem lists_only_grow_witness:
  "visit_atoms (yield_atoms ex_compound) (ex_ready, 0, 0)
     = Inr (round_of ex_compound ex_ready, 0, 2)
   \<and> grows (heap ex_ready 0) (heap (round_of ex_compound ex_ready) 0)
   \<and> whitelist (heap ex_ready 0) = Some []
   \<and> whitelist (heap (round_of ex_compound ex_ready) 0) = Some [''135'']
   \<and> run_rule 0 ''135'' (round_of ex_compound ex_ready) = Inr (round_of ex_compound ex_ready)"
proof -
  have t0: "total_len (heap ex_ready) (yield_atoms ex_compound) = 0" by code_simp
  have t1: "total_len (heap (round_of ex_compound ex_ready)) (yield_atoms ex_compound) = 2"
    by code_simp
  have v: "visit_atoms (yield_atoms ex_compound) (ex_ready, 0, 0)
             = Inr (round_of ex_compound ex_ready, 0, 2)"
    using ready_round[OF ready_ex_ready] t0 t1 by simp
  have w0: "whitelist (heap ex_ready 0) = Some []" by code_simp
  have w1: "whitelist (heap (round_of ex_compound ex_ready) 0) = Some [''135'']" by code_simp
  from lists_only_grow[of ex_compound ex_ready "round_of ex_compound ex_ready" 0 2]
       lists_only_grow[of ex_compound "round_of ex_compound ex_ready" _ _ _ 0 "[''135'']" "''135''"]
       v w0 w1
  show ?thesis by simp
qed

lemma resolve_total:
  "\<forall>a \<in> set as. allocated (heap w a) \<Longrightarrow> \<exists>w'. resolve i as w = Inr w'"
proof (induction as arbitrary: i w)
  case Nil
  then show ?case by simp
next
  case (Cons a as)
  from Cons.prems obtain wl bl where l: "whitelist (heap w a) = Some wl"
    "blacklist (heap w a) = Some bl" by (auto simp: allocated_def)
  define w1 where "w1 = (case oset_diff wl bl of
       [t] \<Rightarrow> w\<lparr>heap := (heap w)(a := (heap w a)\<lparr>atomtype := Some (TypeList [t])\<rparr>)\<rparr>
     | ts \<Rightarrow> (warn (CheckTopology i (kind (heap w a)) ts) w)
               \<lparr>heap := (heap w)(a := (heap w a)\<lparr>atomtype := Some (TypeStr (join '', '' ts))\<rparr>)\<rparr>)"
  have eq: "resolve i (a # as) w = resolve (Suc i) as w1"
    using l unfolding w1_def by (auto split: list.splits)
  have "\<forall>x \<in> set as. allocated (heap w1 x)"
    using Cons.prems unfolding w1_def
    by (auto simp: allocated_def warn_def split: list.splits)
  from Cons.IH[OF this] eq show ?case by simp
qed

lemma resolve_atomtype:
  assumes "resolve i as w = Inr w'" and "a \<in> set as"
    and "whitelist (heap w a) = Some wl" and "blacklist (heap w a) = Some bl"
  shows "atomtype (heap w' a) = Some (type_value (oset_diff wl bl))"
  using assms
proof (induction as arbitrary: i w)
  case Nil
  then show ?case by simp
next
  case (Cons b as)
  from Cons.prems(1) obtain wlb blb where lb: "whitelist (heap w b) = Some wlb"
    "blacklist (heap w b) = Some blb" by (auto split: option.splits)
  define w1 where "w1 = (case oset_diff wlb blb of
       [t] \<Rightarrow> w\<lparr>heap := (heap w)(b := (heap w b)\<lparr>atomtype := Some (TypeList [t])\<rparr>)\<rparr>
     | ts \<Rightarrow> (warn (CheckTopology i (kind (heap w b)) ts) w)
               \<lparr>heap := (heap w)(b := (heap w b)\<lparr>atomtype := Some (TypeStr (join '', '' ts))\<rparr>)\<rparr>)"
  have r: "resolve (Suc i) as w1 = Inr w'"
    using Cons.prems(1) lb unfolding w1_def by (auto split: list.splits)
  have lists1: "whitelist (heap w1 a) = Some wl" "blacklist (heap w1 a) = Some bl"
    using Cons.prems(3,4) unfolding w1_def by (auto simp: warn_def split: list.splits)
  show ?case
  proof (cases "a \<in> set as")
    case True
    from Cons.IH[OF r True lists1] show ?thesis .
  next
    case False
    with Cons.prems(2) have ab: "a = b" by simp
    have "atomtype (heap w1 a) = Some (type_value (oset_diff wl bl))"
      using lb Cons.prems(3,4) unfolding w1_def ab
      by (auto simp: type_value_def warn_def split: list.splits)
    moreover have "heap w' a = heap w1 a" using resolve_frame[OF r] False by simp
    ultimately show ?thesis by simp
  qed
qed

text \<open>The warnings of the final loop: one for each position whose atom is left with no
  candidate or with more than one, and no other.\<close>

lemma resolve_warnings:
  assumes "resolve i as w = Inr w'"
  shows "\<exists>ms. warnings w' = warnings w @ ms \<and>
     (\<forall>m. m \<in> set ms \<longleftrightarrow>
        (\<exists>j wl bl. j < length as \<and> whitelist (heap w (as ! j)) = Some wl \<and>
           blacklist (heap w (as ! j)) = Some bl \<and> length (oset_diff wl bl) \<noteq> 1 \<and>
           m = CheckTopology (i + j) (kind (heap w (as ! j))) (oset_diff wl bl)))"
  using assms
proof (induction as arbitrary: i w)
  case Nil
  then show ?case by simp
next
  case (Cons b as)
  from Cons.prems(1) obtain wlb blb where lb: "whitelist (heap w b) = Some wlb"
    "blacklist (heap w b) = Some blb" by (auto split: option.splits)
  define w1 where "w1 = (case oset_diff wlb blb of
       [t] \<Rightarrow> w\<lparr>heap := (heap w)(b := (heap w b)\<lparr>atomtype := Some (TypeList [t])\<rparr>)\<rparr>
     | ts \<Rightarrow> (warn (CheckTopology i (kind (heap w b)) ts) w)
               \<lparr>heap := (heap w)(b := (heap w b)\<lparr>atomtype := Some (TypeStr (join '', '' ts))\<rparr>)\<rparr>)"
  define m0 where "m0 = (if length (oset_diff wlb blb) = 1 then []
                         else [CheckTopology i (kind (heap w b)) (oset_diff wlb blb)])"
  have r: "resolve (Suc i) as w1 = Inr w'"
    using Cons.prems(1) lb unfolding w1_def by (auto split: list.splits)
  have sk: "\<And>x. kind (heap w1 x) = kind (heap w x)"
    and sw: "\<And>x. whitelist (heap w1 x) = whitelist (heap w x)"
    and sb: "\<And>x. blacklist (heap w1 x) = blacklist (heap w x)"
    unfolding w1_def by (auto simp: warn_def split: list.splits)
  have wn1: "warnings w1 = warnings w @ m0"
    unfolding w1_def m0_def by (auto simp: warn_def split: list.splits)
  from Cons.IH[OF r] obtain ms where ms: "warnings w' = warnings w1 @ ms"
    and char0: "\<forall>m. m \<in> set ms \<longleftrightarrow>
        (\<exists>j wl bl. j < length as \<and> whitelist (heap w1 (as ! j)) = Some wl \<and>
           blacklist (heap w1 (as ! j)) = Some bl \<and> length (oset_diff wl bl) \<noteq> 1 \<and>
           m = CheckTopology (Suc i + j) (kind (heap w1 (as ! j))) (oset_diff wl bl))"
    by blast
  have char: "\<And>m. m \<in> set ms \<longleftrightarrow>
        (\<exists>j wl bl. j < length as \<and> whitelist (heap w (as ! j)) = Some wl \<and>
           blacklist (heap w (as ! j)) = Some bl \<and> length (oset_diff wl bl) \<noteq> 1 \<and>
           m = CheckTopology (Suc i + j) (kind (heap w (as ! j))) (oset_diff wl bl))"
    using char0 unfolding sk sw sb by (rule spec)
  let ?P = "\<lambda>m j wl bl. j < length (b # as) \<and> whitelist (heap w ((b # as) ! j)) = Some wl \<and>
           blacklist (heap w ((b # as) ! j)) = Some bl \<and> length (oset_diff wl bl) \<noteq> 1 \<and>
           m = CheckTopology (i + j) (kind (heap w ((b # as) ! j))) (oset_diff wl bl)"
  have "m \<in> set (m0 @ ms) \<longleftrightarrow> (\<exists>j wl bl. ?P m j wl bl)" for m
  proof
    assume "m \<in> set (m0 @ ms)"
    then consider "m \<in> set m0" | "m \<in> set ms" by auto
    then show "\<exists>j wl bl. ?P m j wl bl"
    proof cases
      case 1
      then have "?P m 0 wlb blb" using lb by (auto simp: m0_def split: if_splits)
      then show ?thesis by blast
    next
      case 2
      with char obtain j wl bl where "j < length as" "whitelist (heap w (as ! j)) = Some wl"
        "blacklist (heap w (as ! j)) = Some bl" "length (oset_diff wl bl) \<noteq> 1"
        "m = CheckTopology (Suc i + j) (kind (heap w (as ! j))) (oset_diff wl bl)" by blast
      then have "?P m (Suc j) wl bl" by simp
      then show ?thesis by blast
    qed
  next
    assume "\<exists>j wl bl. ?P m j wl bl"
    then obtain j wl bl where P: "?P m j wl bl" by blast
    show "m \<in> set (m0 @ ms)"
    proof (cases j)
      case 0
      with P lb show ?thesis by (auto simp: m0_def)
    next
      case (Suc j')
      with P have "j' < length as \<and> whitelist (heap w (as ! j')) = Some wl \<and>
           blacklist (heap w (as ! j')) = Some bl \<and> length (oset_diff wl bl) \<noteq> 1 \<and>
           m = CheckTopology (Suc i + j') (kind (heap w (as ! j'))) (oset_diff wl bl)" by simp
      then have "m \<in> set ms" using char by blast
      then show ?thesis by simp
    qed
  qed
  moreover have "warnings w' = warnings w @ (m0 @ ms)" using ms wn1 by simp
  ultimately show ?case by blast
qed

text \<open>
  C2. The final loop never raises on atoms that have their two lists. For the atom at each
  position it takes the whitelist without the blacklist; when exactly one identifier is
  left, that identifier is stored as the atom's type and no warning carries the
  position; otherwise the remainder, joined by commas, is stored and a warning carries
  the position, the kind of the atom and the whole remainder. The loop goes on to the
  end in both cases.
\<close>

theorem resolution_outcome:
  assumes "\<forall>a \<in> set (atoms_of (heap w) c). allocated (heap w a)"
  shows "\<exists>w' ms. resolve 0 (atoms_of (heap w) c) w = Inr w' \<and> warnings w' = warnings w @ ms \<and>
     (\<forall>j wl bl. j < length (atoms_of (heap w) c) \<and>
        whitelist (heap w (atoms_of (heap w) c ! j)) = Some wl \<and>
        blacklist (heap w (atoms_of (heap w) c ! j)) = Some bl \<longrightarrow>
        (case oset_diff wl bl of
           [t] \<Rightarrow> atomtype (heap w' (atoms_of (heap w) c ! j)) = Some (TypeList [t]) \<and>
                  (\<forall>k ts. CheckTopology j k ts \<notin> set ms)
         | ts \<Rightarrow> atomtype (heap w' (atoms_of (heap w) c ! j)) = Some (TypeStr (join '', '' ts)) \<and>
                  CheckTopology j (kind (heap w (atoms_of (heap w) c ! j))) ts \<in> set ms))"
proof -
  let ?as = "atoms_of (heap w) c"
  from resolve_total[OF assms] obtain w' where r: "resolve 0 ?as w = Inr w'" by blast
  from resolve_warnings[OF r] obtain ms where ms: "warnings w' = warnings w @ ms"
    and char: "\<And>m. m \<in> set ms \<longleftrightarrow>
        (\<exists>j wl bl. j < length ?as \<and> whitelist (heap w (?as ! j)) = Some wl \<and>
           blacklist (heap w (?as ! j)) = Some bl \<and> length (oset_diff wl bl) \<noteq> 1 \<and>
           m = CheckTopology (0 + j) (kind (heap w (?as ! j))) (oset_diff wl bl))"
    by blast
  have each: "(case oset_diff wl bl of
           [t] \<Rightarrow> atomtype (heap w' (?as ! j)) = Some (TypeList [t]) \<and>
                  (\<forall>k ts. CheckTopology j k ts \<notin> set ms)
         | ts \<Rightarrow> atomtype (heap w' (?as ! j)) = Some (TypeStr (join '', '' ts)) \<and>
                  CheckTopology j (kind (heap w (?as ! j))) ts \<in> set ms)"
    if j: "j < length ?as" and wl: "whitelist (heap w (?as ! j)) = Some wl"
      and bl: "blacklist (heap w (?as ! j)) = Some bl" for j wl bl
  proof -
    have mem: "?as ! j \<in> set ?as" using j by simp
    note ty = resolve_atomtype[OF r mem wl bl]
    show ?thesis
    proof (cases "length (oset_diff wl bl) = 1")
      case True
      then obtain t where t: "oset_diff wl bl = [t]"
        by (cases "oset_diff wl bl") auto
      have "CheckTopology j k ts \<notin> set ms" for k ts
      proof
        assume "CheckTopology j k ts \<in> set ms"
        with char obtain wl' bl' where "whitelist (heap w (?as ! j)) = Some wl'"
          "blacklist (heap w (?as ! j)) = Some bl'" "length (oset_diff wl' bl') \<noteq> 1"
          by auto
        with wl bl True show False by simp
      qed
      with ty t show ?thesis by (simp add: type_value_def)
    next
      case False
      then have "CheckTopology j (kind (heap w (?as ! j))) (oset_diff wl bl) \<in> set ms"
        using char j wl bl by auto
      with ty False show ?thesis
        by (cases "oset_diff wl bl") (auto simp: type_value_def split: list.splits)
    qed
  qed
  from r ms each show ?thesis by blast
qed

theorem resolution_outcome_witness:
  "\<exists>w'. resolve 0 (atoms_of (heap ex_converged) ex_converged_compound) ex_converged = Inr w'
     \<and> atomtype (heap w' 0) = Some (TypeList [''135''])
     \<and> atomtype (heap w' 1) = Some (TypeList [''135''])
     \<and> atomtype (heap w' 3) = Some (TypeStr ''135, 145'')
     \<and> CheckTopology 2 ''C'' [''135'', ''145''] \<in> set (warnings w')"
proof -
  have as: "atoms_of (heap ex_converged) ex_converged_compound = [0, 1, 3]" by code_simp
  have al: "\<forall>a \<in> set (atoms_of (heap ex_converged) ex_converged_compound).
              allocated (heap ex_converged a)"
    unfolding as by code_simp
  have l0: "whitelist (heap ex_converged 0) = Some [''135'']"
           "blacklist (heap ex_converged 0) = Some []"
    and l1: "whitelist (heap ex_converged 1) = Some [''135'', ''145'']"
            "blacklist (heap ex_converged 1) = Some [''145'']"
    and l3: "whitelist (heap ex_converged 3) = Some [''135'', ''145'']"
            "blacklist (heap ex_converged 3) = Some []"
    and k3: "kind (heap ex_converged 3) = ''C''"
    by code_simp+
  from resolution_outcome[OF al] obtain w' ms where
    r: "resolve 0 (atoms_of (heap ex_converged) ex_converged_compound) ex_converged = Inr w'"
    and ms: "warnings w' = warnings ex_converged @ ms"
    and each: "\<And>j wl bl. j < length [0::nat, 1, 3] \<Longrightarrow>
        whitelist (heap ex_converged ([0, 1, 3] ! j)) = Some wl \<Longrightarrow>
        blacklist (heap ex_converged ([0, 1, 3] ! j)) = Some bl \<Longrightarrow>
        (case oset_diff wl bl of
           [t] \<Rightarrow> atomtype (heap w' ([0, 1, 3] ! j)) = Some (TypeList [t]) \<and>
                  (\<forall>k ts. CheckTopology j k ts \<notin> set ms)
         | ts \<Rightarrow> atomtype (heap w' ([0, 1, 3] ! j)) = Some (TypeStr (join '', '' ts)) \<and>
                  CheckTopology j (kind (heap ex_converged ([0, 1, 3] ! j))) ts \<in> set ms)"
    unfolding as by blast
  from each[of 0 "[''135'']" "[]"] l0
  have a0: "atomtype (heap w' 0) = Some (TypeList [''135''])" by (simp add: oset_diff_def)
  from each[of 1 "[''135'', ''145'']" "[''145'']"] l1
  have a1: "atomtype (heap w' 1) = Some (TypeList [''135''])" by (simp add: oset_diff_def)
  from each[of 2 "[''135'', ''145'']" "[]"] l3 k3
  have a3: "atomtype (heap w' 3) = Some (TypeStr ''135, 145'')
            \<and> CheckTopology 2 ''C'' [''135'', ''145''] \<in> set ms"
    by (simp add: oset_diff_def)
  from r a0 a1 a3 ms show ?thesis by auto
qed

lemma round_step_no_max:
  assumes "round_step as w w'" and "MaxIterations \<in> set (warnings w')"
  shows "MaxIterations \<in> set (warnings w)"
proof -
  from assms(1) obtain ms where ms: "warnings w' = warnings w @ ms"
    and c: "\<forall>m \<in> set ms. \<exists>a \<in> set as. kind (heap w a) \<noteq> ''G'' \<and>
              coverage_warning (kind (heap w a)) m"
    unfolding round_step_def by blast
  have "MaxIterations \<notin> set ms" using c by fastforce
  with assms(2) ms show ?thesis by simp
qed

lemma ready_warn: "ready c w \<Longrightarrow> ready c (warn m w)"
  by (simp add: ready_def warn_def registry_ok_def bucket_def)

lemma run_rounds_ready:
  assumes "ready c w" and "run_rounds k c w = Inr (w', n)"
  shows "ready c w'"
proof -
  from run_rounds_step[OF assms(2)] obtain w0 where
    st: "round_step (yield_atoms c) w w0" and w': "w' = w0 \<or> w' = warn MaxIterations w0"
    by blast
  from round_step_ready[OF assms(1) st] have "ready c w0" .
  with w' show ?thesis by (auto intro: ready_warn)
qed

lemma ready_resolve:
  assumes "ready c w"
  shows "\<exists>w''. resolve 0 (atoms_of (heap w) c) w = Inr w'' \<and>
           (\<forall>a \<in> set (atoms_of (heap w) c). atomtype (heap w'' a) \<noteq> None)"
proof -
  have al: "\<forall>a \<in> set (atoms_of (heap w) c). allocated (heap w a)"
    using assms by (auto simp: ready_def atoms_of_def)
  from resolve_total[OF al] obtain w'' where r: "resolve 0 (atoms_of (heap w) c) w = Inr w''"
    by blast
  have "atomtype (heap w'' a) \<noteq> None" if a: "a \<in> set (atoms_of (heap w) c)" for a
  proof -
    from al a obtain wl bl where "whitelist (heap w a) = Some wl" "blacklist (heap w a) = Some bl"
      by (auto simp: allocated_def)
    from resolve_atomtype[OF r a this] show ?thesis by simp
  qed
  with r show ?thesis by blast
qed

text \<open>
  C1. From a world in which the atoms of the compound have their lists and every rule
  of the registry is in the catalogue (as it is when the loop is entered, by
  \<open>prepare_ready\<close>), the loop of
  rounds returns after at most \<open>max_iter\<close> rounds, and the final loop then gives every real
  atom a value. The loop returns after the first round across which the total of the
  lengths of all whitelists and blacklists did not change, and does not warn then; when
  the total changed across each of the \<open>max_iter\<close> rounds it returns after them with the
  warning that the maximum was reached.
\<close>

theorem typing_loop_halts_within_cap:
  assumes "ready c w"
  shows "(\<exists>w' n. run_rounds max_iter c w = Inr (w', n) \<and> n \<le> max_iter \<and>
            (\<exists>w''. resolve 0 (atoms_of (heap w') c) w' = Inr w'' \<and>
                   (\<forall>a \<in> set (atoms_of (heap w') c). atomtype (heap w'' a) \<noteq> None)))
       \<and> (\<forall>j<max_iter.
             (\<forall>i<j. total_after i c w \<noteq> total_after (Suc i) c w) \<and>
             total_after j c w = total_after (Suc j) c w \<longrightarrow>
             run_rounds max_iter c w = Inr (world_after (Suc j) c w, Suc j) \<and>
             (MaxIterations \<in> set (warnings (world_after (Suc j) c w)) \<longrightarrow>
                MaxIterations \<in> set (warnings w)))
       \<and> ((\<forall>j<max_iter. total_after j c w \<noteq> total_after (Suc j) c w) \<longrightarrow>
             run_rounds max_iter c w
               = Inr (warn MaxIterations (world_after max_iter c w), max_iter))"
proof (intro conjI)
  from run_rounds_total[OF assms] obtain w' n where r: "run_rounds max_iter c w = Inr (w', n)"
    by blast
  from run_rounds_step[OF r] have n: "n \<le> max_iter" by simp
  from ready_resolve[OF run_rounds_ready[OF assms r]] r n
  show "\<exists>w' n. run_rounds max_iter c w = Inr (w', n) \<and> n \<le> max_iter \<and>
            (\<exists>w''. resolve 0 (atoms_of (heap w') c) w' = Inr w'' \<and>
                   (\<forall>a \<in> set (atoms_of (heap w') c). atomtype (heap w'' a) \<noteq> None))"
    by blast
next
  show "\<forall>j<max_iter.
             (\<forall>i<j. total_after i c w \<noteq> total_after (Suc i) c w) \<and>
             total_after j c w = total_after (Suc j) c w \<longrightarrow>
             run_rounds max_iter c w = Inr (world_after (Suc j) c w, Suc j) \<and>
             (MaxIterations \<in> set (warnings (world_after (Suc j) c w)) \<longrightarrow>
                MaxIterations \<in> set (warnings w))"
    using run_rounds_char[OF assms, of max_iter]
      round_step_no_max[OF world_after_step[OF assms]]
    by blast
next
  show "(\<forall>j<max_iter. total_after j c w \<noteq> total_after (Suc j) c w) \<longrightarrow>
             run_rounds max_iter c w
               = Inr (warn MaxIterations (world_after max_iter c w), max_iter)"
    using run_rounds_char[OF assms, of max_iter] by blast
qed

lemma totals_nth: "j \<le> k \<Longrightarrow> totals k c w ! j = total_after j c w"
proof (induction k arbitrary: j w)
  case 0
  then show ?case by (simp add: total_after_def)
next
  case (Suc k)
  show ?case
  proof (cases j)
    case 0
    then show ?thesis by (simp add: total_after_def)
  next
    case (Suc j')
    with Suc.prems Suc.IH[of j' "round_of c w"] show ?thesis
      by (simp add: total_after_def)
  qed
qed

theorem typing_loop_halts_within_cap_witness:
  "ready ex_compound ex_ready
   \<and> run_rounds max_iter ex_compound ex_ready = Inr (world_after 2 ex_compound ex_ready, 2)
   \<and> MaxIterations \<notin> set (warnings (world_after 2 ex_compound ex_ready))
   \<and> ready ex_chain_compound ex_chain
   \<and> run_rounds max_iter ex_chain_compound ex_chain
       = Inr (warn MaxIterations (world_after max_iter ex_chain_compound ex_chain), max_iter)"
proof -
  have dc: "decorated (projr (load_rules chain_catalogue (fresh chain_heap)))" by code_simp
  have "distinct (yield_atoms ex_chain_compound)" by code_simp
  then have r2: "ready ex_chain_compound ex_chain"
    unfolding ex_chain_def by (rule prepare_ready) (rule loaded_registry_ok[OF dc])
  have c0: "total_after 0 ex_compound ex_ready \<noteq> total_after (Suc 0) ex_compound ex_ready"
    and c1: "total_after (Suc 0) ex_compound ex_ready
               = total_after (Suc (Suc 0)) ex_compound ex_ready"
    and nw: "MaxIterations \<notin> set (warnings ex_ready)"
    by code_simp+
  have "totals 10 ex_chain_compound ex_chain = [0..<11]" by code_simp
  then have "total_after j ex_chain_compound ex_chain = j" if "j < 11" for j
    using totals_nth[of j 10 ex_chain_compound ex_chain] that by simp
  then have all: "\<forall>j<max_iter. total_after j ex_chain_compound ex_chain
                        \<noteq> total_after (Suc j) ex_chain_compound ex_chain"
    by (simp add: max_iter_def)
  have conv: "(\<forall>i<Suc 0. total_after i ex_compound ex_ready
                  \<noteq> total_after (Suc i) ex_compound ex_ready)
       \<and> total_after (Suc 0) ex_compound ex_ready
           = total_after (Suc (Suc 0)) ex_compound ex_ready"
    using c0 c1 by simp
  have lt: "Suc 0 < max_iter" by (simp add: max_iter_def)
  from typing_loop_halts_within_cap[OF ready_ex_ready] lt conv
  have a: "run_rounds max_iter ex_compound ex_ready
             = Inr (world_after (Suc (Suc 0)) ex_compound ex_ready, Suc (Suc 0))
           \<and> (MaxIterations \<in> set (warnings (world_after (Suc (Suc 0)) ex_compound ex_ready))
                \<longrightarrow> MaxIterations \<in> set (warnings ex_ready))"
    by blast
  from typing_loop_halts_within_cap[OF r2] all
  have b: "run_rounds max_iter ex_chain_compound ex_chain
       = Inr (warn MaxIterations (world_after max_iter ex_chain_compound ex_chain), max_iter)"
    by blast
  have two: "Suc (Suc 0) = 2" by simp
  from a b nw r2 ready_ex_ready show ?thesis unfolding two by blast
qed






lemma apply_rules_bucket:
  "bucket w (Some (kind (heap w a))) (Some (length (bonds (heap w a)))) = Some rs \<Longrightarrow>
     apply_rules a w = run_rules a rs w"
  by (auto simp: apply_rules_def bucket_def split: option.splits)

lemma apply_rules_no_bucket:
  "bucket w (Some (kind (heap w a))) (Some (length (bonds (heap w a)))) = None \<Longrightarrow>
     \<exists>m. apply_rules a w = Inr (warn m w) \<and> coverage_warning (kind (heap w a)) m"
  by (auto simp: apply_rules_def bucket_def split: option.splits)




text \<open>A build on a registry that a first build has filled enters every rule a second
  time: the registry is a module-level dict that no run empties.\<close>

lemma second_build_doubles:
  "\<not> isl (build_rule_map (projr (build_rule_map ex_unguarded)))
   \<and> bucket (projr (build_rule_map (projr (build_rule_map ex_unguarded)))) None (Some 1)
       = Some [''999'', ''999'']"
  by code_simp

subsection \<open>The entry point and the analysis\<close>

lemma adds_warnings_refl: "adds_warnings P w w"
  unfolding adds_warnings_def by (rule exI[of _ "[]"]) simp

lemma adds_warnings_trans:
  assumes "adds_warnings P w1 w2" and "adds_warnings P w2 w3"
  shows "adds_warnings P w1 w3"
proof -
  from assms(1) obtain ms1 where 1: "w2 = w1\<lparr>warnings := warnings w1 @ ms1\<rparr>"
    "\<forall>m \<in> set ms1. P m" unfolding adds_warnings_def by blast
  from assms(2) obtain ms2 where 2: "w3 = w2\<lparr>warnings := warnings w2 @ ms2\<rparr>"
    "\<forall>m \<in> set ms2. P m" unfolding adds_warnings_def by blast
  show ?thesis unfolding adds_warnings_def
    by (rule exI[of _ "ms1 @ ms2"]) (use 1 2 in auto)
qed

lemma adds_warnings_warn: "P m \<Longrightarrow> adds_warnings P w (warn m w)"
  unfolding adds_warnings_def warn_def by (rule exI[of _ "[m]"]) simp

lemma adds_warnings_frame:
  "adds_warnings P w w' \<Longrightarrow>
     heap w' = heap w \<and> rule_number_to_rule w' = rule_number_to_rule w \<and>
     rule_map w' = rule_map w \<and> neighbor_types_map w' = neighbor_types_map w"
  by (auto simp: adds_warnings_def)

lemma check_group_adds:
  assumes "check_group entry w = Inr w'"
  shows "adds_warnings graph_warning w w'"
proof -
  obtain element_type pattern rules where e: "entry = ((element_type, pattern), rules)"
    by (metis prod.exhaust)
  show ?thesis
  proof (cases "length rules < 2")
    case True
    with assms e show ?thesis by (simp add: check_group_def adds_warnings_refl)
  next
    case False
    with assms e obtain G connected where
      "build_graph (rule_number_to_rule w) rules \<lparr>nodes = [], edges = []\<rparr> = Inr G"
      and "is_connected_undirected G = Inr connected"
      by (auto simp: check_group_def split: sum.splits)
    note g = this
    define w1 where "w1 = (if \<not> connected
                               then draw_rule_graph Unconnected G element_type pattern None w
                               else w)"
    define w2 where "w2 = (if \<not> is_directed_acyclic_graph G
                               then draw_rule_graph NotDAG G element_type pattern None w1
                               else w1)"
    define w3 where "w3 = (if length (sinks_of G) > 1
                             then draw_rule_graph MultipleSinks G element_type pattern
                                    (Some (sinks_of G)) w2
                             else w2)"
    have "w' = w3"
      using assms e False g by (auto simp: check_group_def w1_def w2_def w3_def Let_def)
    moreover have "adds_warnings graph_warning w w1"
      by (simp add: w1_def draw_rule_graph_def adds_warnings_refl adds_warnings_warn)
    moreover have "adds_warnings graph_warning w1 w2"
      by (simp add: w2_def draw_rule_graph_def adds_warnings_refl adds_warnings_warn)
    moreover have "adds_warnings graph_warning w2 w3"
      by (simp add: w3_def draw_rule_graph_def adds_warnings_refl adds_warnings_warn)
    ultimately show ?thesis by (blast intro: adds_warnings_trans)
  qed
qed

lemma check_groups_adds:
  "check_groups entries w = Inr w' \<Longrightarrow> adds_warnings graph_warning w w'"
proof (induction entries arbitrary: w)
  case Nil
  then show ?case by (simp add: adds_warnings_refl)
next
  case (Cons entry entries)
  from Cons.prems obtain w1 where 1: "check_group entry w = Inr w1"
    and 2: "check_groups entries w1 = Inr w'" by (auto split: sum.splits)
  from check_group_adds[OF 1] Cons.IH[OF 2] show ?case by (rule adds_warnings_trans)
qed

lemma sanitize_adds: "sanitize w = Inr w' \<Longrightarrow> adds_warnings graph_warning w w'"
  by (auto simp: sanitize_def split: sum.splits dest: check_groups_adds)

text \<open>The loop of rounds returns from every world in which the atoms of the compound have
  their lists and the registry names only rules of the catalogue.\<close>

lemma run_rounds_returns:
  assumes "\<forall>a \<in> set (yield_atoms c). allocated (heap w a)" and "registry_ok w"
  shows "\<exists>w' n. run_rounds k c w = Inr (w', n) \<and>
           (\<forall>a \<in> set (yield_atoms c). allocated (heap w' a))"
  using assms
proof (induction k arbitrary: w)
  case 0
  then show ?case by (simp add: warn_def)
next
  case (Suc k)
  from visit_atoms_total[OF Suc.prems] obtain w1 ol nl where
    v: "visit_atoms (yield_atoms c) (w, 0, 0) = Inr (w1, ol, nl)" by blast
  note st = visit_atoms_step[OF v]
  have a1: "\<forall>a \<in> set (yield_atoms c). allocated (heap w1 a)"
    using Suc.prems(1) st by (auto simp: round_step_def dest: grows_allocated)
  have r1: "registry_ok w1"
    using Suc.prems(2) st by (simp add: round_step_def registry_ok_def bucket_def)
  from Suc.IH[OF a1 r1] obtain w' n where "run_rounds k c w1 = Inr (w', n)"
    "\<forall>a \<in> set (yield_atoms c). allocated (heap w' a)" by blast
  with v a1 show ?case by (cases "ol = nl") auto
qed

text \<open>Without the analysis the entry point returns whenever the registry names only rules
  of the catalogue and every rule function is decorated, whatever the compound and the
  name of the force field.\<close>

lemma find_atomtypes_returns:
  assumes "registry_ok w"
    and "(if forcefield = ''OPLS-AA'' then load_rules oplsaa w else Inr w) = Inr w1"
    and "decorated w1"
  shows "\<exists>w'. find_atomtypes oplsaa c forcefield False w = Inr w'"
proof -
  have "registry_ok w1"
    using assms(1,2) load_rules_registry[OF assms(1), of oplsaa w1] by (auto split: if_splits)
  then have rf: "registry_ok (filed w1)" by (rule filed_registry)
  have b: "build_rule_map w1 = Inr (filed w1)" using assms(3) by (rule build_rule_map_decorated)
  let ?wp = "fold prepare (yield_atoms c) (filed w1)"
  have al: "\<forall>a \<in> set (yield_atoms c). allocated (heap ?wp a)"
    by (simp add: fold_prepare_heap allocated_def)
  have rp: "registry_ok ?wp"
    using rf by (simp add: registry_ok_def bucket_def fold_prepare_frame)
  from run_rounds_returns[OF al rp] obtain w3 n where
    r: "run_rounds max_iter c ?wp = Inr (w3, n)"
    and a3: "\<forall>a \<in> set (yield_atoms c). allocated (heap w3 a)" by blast
  have "\<forall>a \<in> set (atoms_of (heap w3) c). allocated (heap w3 a)"
    using a3 by (simp add: atoms_of_def)
  from resolve_total[OF this] obtain w' where "resolve 0 (atoms_of (heap w3) c) w3 = Inr w'"
    by blast
  with assms(2) b r show ?thesis by (simp add: find_atomtypes_def)
qed

text \<open>
  C6, as the code has it. A force-field name other than \<open>OPLS-AA\<close> is not rejected: the
  entry point loads no rule and goes on with the rules that are registered, exactly as
  a run with the known name and an empty catalogue module does. With the analysis off
  it returns a result whenever the registry names only rules of the catalogue and every
  registered rule function carries a decorator.
\<close>

theorem unknown_forcefield_proceeds:
  assumes "forcefield \<noteq> ''OPLS-AA''"
  shows "find_atomtypes oplsaa c forcefield debug w = find_atomtypes [] c ''OPLS-AA'' debug w
         \<and> (registry_ok w \<and> decorated w \<longrightarrow>
              (\<exists>w'. find_atomtypes oplsaa c forcefield False w = Inr w'))"
proof
  show "find_atomtypes oplsaa c forcefield debug w = find_atomtypes [] c ''OPLS-AA'' debug w"
    using assms by (simp add: find_atomtypes_def)
  have l: "(if forcefield = ''OPLS-AA'' then load_rules oplsaa w else Inr w) = Inr w"
    using assms by simp
  show "registry_ok w \<and> decorated w \<longrightarrow>
          (\<exists>w'. find_atomtypes oplsaa c forcefield False w = Inr w')"
    using find_atomtypes_returns[OF _ l] by blast
qed

theorem unknown_forcefield_proceeds_witness:
  "''CHARMM'' \<noteq> ''OPLS-AA''
   \<and> registry_ok (fresh ex_heap) \<and> decorated (fresh ex_heap)
   \<and> find_atomtypes ex_catalogue ex_compound ''CHARMM'' True (fresh ex_heap)
       = find_atomtypes [] ex_compound ''OPLS-AA'' True (fresh ex_heap)
   \<and> (\<exists>w'. find_atomtypes ex_catalogue ex_compound ''CHARMM'' False (fresh ex_heap) = Inr w')
   \<and> registry_ok ex_loaded \<and> decorated ex_loaded
   \<and> rule_number_to_rule ex_loaded \<noteq> []
   \<and> (\<exists>w'. find_atomtypes [] ex_compound ''CHARMM'' False ex_loaded = Inr w')"
proof -
  have ne: "''CHARMM'' \<noteq> ''OPLS-AA''" by simp
  have d: "decorated (fresh ex_heap)" by (simp add: decorated_def fresh_def)
  have dl: "decorated ex_loaded" and nl: "rule_number_to_rule ex_loaded \<noteq> []" by code_simp+
  from unknown_forcefield_proceeds[OF ne, of ex_catalogue ex_compound True "fresh ex_heap"]
       registry_ok_fresh[of ex_heap] d
  have a: "find_atomtypes ex_catalogue ex_compound ''CHARMM'' True (fresh ex_heap)
             = find_atomtypes [] ex_compound ''OPLS-AA'' True (fresh ex_heap)"
    and b: "\<exists>w'. find_atomtypes ex_catalogue ex_compound ''CHARMM'' False (fresh ex_heap) = Inr w'"
    by simp_all
  from unknown_forcefield_proceeds[OF ne, of "[]" ex_compound True ex_loaded]
       registry_ok_ex_loaded dl
  have c: "\<exists>w'. find_atomtypes [] ex_compound ''CHARMM'' False ex_loaded = Inr w'"
    by simp
  from ne registry_ok_fresh[of ex_heap] d a b registry_ok_ex_loaded dl nl c
  show ?thesis by (intro conjI)
qed

text \<open>
  C6 as stated fails: a run with the unknown name \<open>CHARMM\<close> and the analysis on returns a
  result, in which no rule was applied and both real atoms are reported untyped.
\<close>

theorem unknown_forcefield_not_rejected:
  "\<not> isl (find_atomtypes ex_catalogue ex_compound ''CHARMM'' True (fresh ex_heap))
   \<and> warnings (projr (find_atomtypes ex_catalogue ex_compound ''CHARMM'' True (fresh ex_heap)))
       = [NoRuleForKind ''C'', NoRuleForKind ''H'',
          CheckTopology 0 ''C'' [], CheckTopology 1 ''H'' []]"
  by code_simp

lemma collect_elements_error: "collect_elements ds et els = Inl e \<Longrightarrow> e = AssertionError"
  by (induction ds et els rule: collect_elements.induct) (auto split: if_splits)

lemma collect_elements_fails:
  "(case et of None \<Rightarrow> 2 | Some x \<Rightarrow> 1) \<le> length (filter is_element ds) \<Longrightarrow>
     collect_elements ds et els = Inl AssertionError"
  by (induction ds et els rule: collect_elements.induct) (auto split: option.splits)

lemma decorated_fetch:
  "decorators r \<noteq> [] \<Longrightarrow> get_decorator_objects_by_type r = Inr (decorators r)"
  by (simp add: get_decorator_objects_by_type_def)

lemma supported_elements_error:
  assumes "\<forall>(rn, r) \<in> set rules. decorators r \<noteq> []"
    and "supported_elements rules els = Inl e"
  shows "e = AssertionError"
  using assms
proof (induction rules arbitrary: els)
  case Nil
  then show ?case by simp
next
  case (Cons x rules)
  obtain rn r where x: "x = (rn, r)" by (cases x)
  have g: "get_decorator_objects_by_type r = Inr (decorators r)"
    using Cons.prems(1) x by (simp add: decorated_fetch)
  have rest: "\<forall>(rn, r) \<in> set rules. decorators r \<noteq> []" using Cons.prems(1) by simp
  show ?case
  proof (cases "collect_elements (decorators r) None els")
    case (Inl e')
    with Cons.prems(2) x g collect_elements_error[OF Inl] show ?thesis by simp
  next
    case (Inr els')
    with Cons.prems(2) x g have "supported_elements rules els' = Inl e" by simp
    from Cons.IH[OF rest this] show ?thesis .
  qed
qed

lemma supported_elements_fails:
  assumes "\<forall>(rn, r) \<in> set rules. decorators r \<noteq> []"
    and "(rn, r) \<in> set rules" and "2 \<le> length (element_guards r)"
  shows "supported_elements rules els = Inl AssertionError"
  using assms(1,2)
proof (induction rules arbitrary: els)
  case Nil
  then show ?case by simp
next
  case (Cons x rules)
  obtain rn' r' where x: "x = (rn', r')" by (cases x)
  have g: "get_decorator_objects_by_type r' = Inr (decorators r')"
    using Cons.prems(1) x by (simp add: decorated_fetch)
  have rest: "\<forall>(rn, r) \<in> set rules. decorators r \<noteq> []" using Cons.prems(1) by simp
  show ?case
  proof (cases "collect_elements (decorators r') None els")
    case (Inl e)
    with collect_elements_error[OF Inl] x g show ?thesis by simp
  next
    case (Inr els')
    have "(rn, r) \<noteq> (rn', r')"
    proof
      assume "(rn, r) = (rn', r')"
      with assms(3) have "2 \<le> length (filter is_element (decorators r'))"
        by (simp add: element_guards_def)
      from collect_elements_fails[of None "decorators r'" els] this Inr show False by simp
    qed
    with Cons.prems(2) x have "(rn, r) \<in> set rules" by auto
    from Cons.IH[OF rest this] Inr x g show ?thesis by simp
  qed
qed

lemma scan_counts_error: "scan_counts ds s = Inl e \<Longrightarrow> e = AssertionError"
  by (induction ds s rule: scan_counts.induct) (auto split: if_splits)

lemma scan_counts_fails:
  "(case nc of None \<Rightarrow> 2 | Some x \<Rightarrow> 1) \<le> length (filter is_count ds) \<Longrightarrow>
     scan_counts ds (et, nc) = Inl AssertionError"
  by (induction ds "(et, nc)" arbitrary: et nc rule: scan_counts.induct)
     (auto split: option.splits)

lemma scan_counts_some:
  "scan_counts ds (et, nc) = Inr (et', nc') \<Longrightarrow>
     nc \<noteq> None \<or> 1 \<le> length (filter is_count ds) \<Longrightarrow> nc' \<noteq> None"
  by (induction ds "(et, nc)" arbitrary: et nc rule: scan_counts.induct)
     (auto split: if_splits)

lemma match_rules_fails:
  assumes "\<forall>(rn, r) \<in> set rules. decorators r \<noteq> []"
    and "(rn, r) \<in> set rules" and "2 \<le> length (count_guards r)"
  shows "\<exists>e. match_rules els rules rule_matches = Inl e \<and>
           ((\<forall>(rn', r') \<in> set rules. 1 \<le> length (count_guards r')) \<longrightarrow> e = AssertionError)"
  using assms(1,2)
proof (induction rules arbitrary: rule_matches)
  case Nil
  then show ?case by simp
next
  case (Cons x rules)
  obtain rn' r' where x: "x = (rn', r')" by (cases x)
  have g: "get_decorator_objects_by_type r' = Inr (decorators r')"
    using Cons.prems(1) x by (simp add: decorated_fetch)
  have rest: "\<forall>(rn, r) \<in> set rules. decorators r \<noteq> []" using Cons.prems(1) by simp
  show ?case
  proof (cases "scan_counts (decorators r') (None, None)")
    case (Inl e)
    with scan_counts_error[OF Inl] x g show ?thesis by simp
  next
    case (Inr p)
    obtain et nc where p: "p = (et, nc)" by (cases p)
    have "(rn, r) \<noteq> (rn', r')"
    proof
      assume "(rn, r) = (rn', r')"
      with assms(3) have "2 \<le> length (filter is_count (decorators r'))"
        by (simp add: count_guards_def)
      from scan_counts_fails[of None "decorators r'" None] this Inr show False by simp
    qed
    with Cons.prems(2) x have mem: "(rn, r) \<in> set rules" by auto
    show ?thesis
    proof (cases nc)
      case None
      have "\<not> 1 \<le> length (count_guards r')"
        using scan_counts_some[of "decorators r'" None None et nc] Inr p None
        by (auto simp: count_guards_def)
      with Inr p None x g show ?thesis by auto
    next
      case (Some n)
      from Cons.IH[OF rest mem] obtain e where
        "match_rules els rules
           (fold (\<lambda>p. add_match (et, p) rn')
              (filter (\<lambda>p. p \<notin> set (removed_patterns (decorators r')
                                        (remdups (combinations_with_replacement els n))))
                 (remdups (combinations_with_replacement els n)))
              rule_matches) = Inl e"
        "(\<forall>(rn', r') \<in> set rules. 1 \<le> length (count_guards r')) \<longrightarrow> e = AssertionError"
        by blast
      with Inr p Some x g show ?thesis by (auto simp: Let_def)
    qed
  qed
qed

lemma sanitize_rules:
  "sanitize w =
     (case supported_elements (rule_number_to_rule w) [] of
        Inl e \<Rightarrow> Inl e
      | Inr els \<Rightarrow>
          (case match_rules els (rule_number_to_rule w) [] of
             Inl e \<Rightarrow> Inl e
           | Inr rule_matches \<Rightarrow> check_groups rule_matches w))"
  by (simp add: sanitize_def)

lemma filed_rules: "rule_number_to_rule (filed w) = rule_number_to_rule w"
  by (simp add: filed_def fold_register_frame)

lemma filed_decorated: "decorated (filed w) \<longleftrightarrow> decorated w"
  by (simp add: decorated_def filed_rules)

lemma sanitize_duplicate_element:
  assumes "decorated w" and "(rn, r) \<in> set (rule_number_to_rule w)"
    and "2 \<le> length (element_guards r)"
  shows "sanitize w = Inl AssertionError"
  using supported_elements_fails[OF assms(1)[unfolded decorated_def] assms(2,3)]
  by (simp add: sanitize_rules)

lemma sanitize_duplicate_count:
  assumes "decorated w" and "(rn, r) \<in> set (rule_number_to_rule w)"
    and "2 \<le> length (count_guards r)"
  shows "\<exists>e. sanitize w = Inl e \<and>
           ((\<forall>(rn', r') \<in> set (rule_number_to_rule w).
               length (element_guards r') \<le> 1 \<and> 1 \<le> length (count_guards r')) \<longrightarrow>
            e = AssertionError)"
proof (cases "supported_elements (rule_number_to_rule w) []")
  case (Inl e)
  with supported_elements_error[OF assms(1)[unfolded decorated_def] Inl] show ?thesis
    by (simp add: sanitize_rules)
next
  case (Inr els)
  from match_rules_fails[OF assms(1)[unfolded decorated_def] assms(2,3), of els "[]"]
  obtain e where
    "match_rules els (rule_number_to_rule w) [] = Inl e"
    "(\<forall>(rn', r') \<in> set (rule_number_to_rule w). 1 \<le> length (count_guards r'))
       \<longrightarrow> e = AssertionError"
    by blast
  with Inr show ?thesis by (auto simp: sanitize_rules)
qed

lemma find_atomtypes_build_fails:
  assumes "(if forcefield = ''OPLS-AA'' then load_rules oplsaa w else Inr w) = Inr w1"
    and "build_rule_map w1 = Inl e"
  shows "find_atomtypes oplsaa c forcefield debug w = Inl e"
  using assms by (simp add: find_atomtypes_def)

lemma find_atomtypes_analysis_fails:
  assumes "(if forcefield = ''OPLS-AA'' then load_rules oplsaa w else Inr w) = Inr w1"
    and "build_rule_map w1 = Inr wb"
    and "sanitize wb = Inl e"
  shows "find_atomtypes oplsaa c forcefield True w = Inl e"
  using assms by (simp add: find_atomtypes_def)

text \<open>
  C7, as the code has it. A rule with two element decorators, or with two
  neighbour-count decorators, is found by the analysis, and the assertion that finds it
  raises: the analysis of the built registry ends there with an error, and a typing run
  with the analysis on ends with an error. For two element decorators the error of the
  analysis is the assertion error; for two neighbour-count decorators it is the
  assertion error when every rule of the catalogue has a neighbour count and none has
  two element decorators (a rule before it in the catalogue may fail first for having
  no neighbour count). The run ends with the error of the analysis when every rule
  function of the catalogue carries a decorator, and otherwise with the type error of
  the registry build, which comes first. No rule is excluded.
\<close>

theorem duplicate_guard_aborts:
  assumes "(if forcefield = ''OPLS-AA'' then load_rules oplsaa w else Inr w) = Inr w1"
    and "(rn, r) \<in> set (rule_number_to_rule w1)"
  shows "(2 \<le> length (element_guards r) \<longrightarrow>
            (\<forall>wb. build_rule_map w1 = Inr wb \<longrightarrow> sanitize wb = Inl AssertionError) \<and>
            find_atomtypes oplsaa c forcefield True w
              = Inl (if decorated w1 then AssertionError else TypeError))
       \<and> (2 \<le> length (count_guards r) \<longrightarrow>
            (\<forall>wb. build_rule_map w1 = Inr wb \<longrightarrow>
               (\<exists>e. sanitize wb = Inl e \<and>
                    ((\<forall>(rn', r') \<in> set (rule_number_to_rule w1).
                        length (element_guards r') \<le> 1 \<and> 1 \<le> length (count_guards r')) \<longrightarrow>
                     e = AssertionError))) \<and>
            (\<exists>e. find_atomtypes oplsaa c forcefield True w = Inl e \<and>
                 (\<not> decorated w1 \<longrightarrow> e = TypeError) \<and>
                 (decorated w1 \<and>
                  (\<forall>(rn', r') \<in> set (rule_number_to_rule w1).
                     length (element_guards r') \<le> 1 \<and> 1 \<le> length (count_guards r')) \<longrightarrow>
                  e = AssertionError)))"
proof (intro conjI impI allI)
  let ?ok = "\<forall>(rn', r') \<in> set (rule_number_to_rule w1).
               length (element_guards r') \<le> 1 \<and> 1 \<le> length (count_guards r')"
  have mem: "(rn, r) \<in> set (rule_number_to_rule (filed w1))"
    using assms(2) by (simp add: filed_rules)
  have bare: "find_atomtypes oplsaa c forcefield True w = Inl TypeError" if "\<not> decorated w1"
    using find_atomtypes_build_fails[OF assms(1) build_rule_map_bare[OF that]] .
  {
    fix wb
    assume two: "2 \<le> length (element_guards r)" and b: "build_rule_map w1 = Inr wb"
    from build_rule_map_Inr[OF b] have d: "decorated w1" and wb: "wb = filed w1" by simp_all
    from d have "decorated (filed w1)" by (simp add: filed_decorated)
    from sanitize_duplicate_element[OF this mem two] wb
    show "sanitize wb = Inl AssertionError" by simp
  }
  {
    assume two: "2 \<le> length (element_guards r)"
    show "find_atomtypes oplsaa c forcefield True w
            = Inl (if decorated w1 then AssertionError else TypeError)"
    proof (cases "decorated w1")
      case True
      then have "decorated (filed w1)" by (simp add: filed_decorated)
      from sanitize_duplicate_element[OF this mem two]
      have "sanitize (filed w1) = Inl AssertionError" .
      from find_atomtypes_analysis_fails[OF assms(1) build_rule_map_decorated[OF True] this]
        True
      show ?thesis by simp
    next
      case False
      with bare show ?thesis by simp
    qed
  }
  {
    fix wb
    assume two: "2 \<le> length (count_guards r)" and b: "build_rule_map w1 = Inr wb"
    from build_rule_map_Inr[OF b] have d: "decorated w1" and wb: "wb = filed w1" by simp_all
    from d have "decorated (filed w1)" by (simp add: filed_decorated)
    from sanitize_duplicate_count[OF this mem two] wb
    show "\<exists>e. sanitize wb = Inl e \<and> (?ok \<longrightarrow> e = AssertionError)"
      by (simp add: filed_rules)
  }
  assume two: "2 \<le> length (count_guards r)"
  show "\<exists>e. find_atomtypes oplsaa c forcefield True w = Inl e \<and>
            (\<not> decorated w1 \<longrightarrow> e = TypeError) \<and>
            (decorated w1 \<and> ?ok \<longrightarrow> e = AssertionError)"
  proof (cases "decorated w1")
    case True
    then have "decorated (filed w1)" by (simp add: filed_decorated)
    from sanitize_duplicate_count[OF this mem two] obtain e where
      s: "sanitize (filed w1) = Inl e" and e: "?ok \<longrightarrow> e = AssertionError"
      by (auto simp: filed_rules)
    from find_atomtypes_analysis_fails[OF assms(1) build_rule_map_decorated[OF True] s]
      True e
    show ?thesis by blast
  next
    case False
    with bare show ?thesis by simp
  qed
qed

theorem duplicate_guard_aborts_witness:
  "load_rules dup_catalogue (fresh ex_heap) = Inr ex_dup
   \<and> decorated ex_dup
   \<and> (''200'', twice_element_rule) \<in> set (rule_number_to_rule ex_dup)
   \<and> 2 \<le> length (element_guards twice_element_rule)
   \<and> (\<exists>wb. build_rule_map ex_dup = Inr wb \<and> sanitize wb = Inl AssertionError)
   \<and> find_atomtypes dup_catalogue ex_compound ''OPLS-AA'' True (fresh ex_heap)
       = Inl AssertionError
   \<and> decorated ex_dup_count
   \<and> (''201'', twice_count_rule) \<in> set (rule_number_to_rule ex_dup_count)
   \<and> 2 \<le> length (count_guards twice_count_rule)
   \<and> (\<exists>wb. build_rule_map ex_dup_count = Inr wb \<and> sanitize wb = Inl AssertionError)
   \<and> find_atomtypes [] ex_compound ''OPLS-AA'' True ex_dup_count = Inl AssertionError"
proof -
  obtain w' where "load_rules dup_catalogue (fresh ex_heap) = Inr w'"
    using load_rules_total by blast
  then have l: "load_rules dup_catalogue (fresh ex_heap) = Inr ex_dup"
    by (simp add: ex_dup_def)
  have rules: "rule_number_to_rule ex_dup
                 = [(''135'', guarded_rule), (''200'', twice_element_rule),
                    (''140'', \<lparr>decorators = [Element ''H'', NeighborCount 1,
                                              Whitelist (One (IntId 140))],
                               body = always\<rparr>)]"
    by (simp add: ex_dup_def dup_catalogue_def fresh_def)
  have d1: "decorated ex_dup"
    by (simp add: decorated_def rules guarded_rule_def twice_element_rule_def)
  have m1: "(''200'', twice_element_rule) \<in> set (rule_number_to_rule ex_dup)"
    by (simp add: rules)
  have e2: "2 \<le> length (element_guards twice_element_rule)"
    by (simp add: element_guards_def twice_element_rule_def)
  have l1: "(if ''OPLS-AA'' = ''OPLS-AA'' then load_rules dup_catalogue (fresh ex_heap)
             else Inr (fresh ex_heap)) = Inr ex_dup"
    using l by simp
  have l2: "(if ''OPLS-AA'' = ''OPLS-AA'' then load_rules [] ex_dup_count
             else Inr ex_dup_count) = Inr ex_dup_count"
    by simp
  have d2: "decorated ex_dup_count"
    by (simp add: decorated_def ex_dup_count_def guarded_rule_def twice_count_rule_def)
  have m2: "(''201'', twice_count_rule) \<in> set (rule_number_to_rule ex_dup_count)"
    by (simp add: ex_dup_count_def)
  have c2: "2 \<le> length (count_guards twice_count_rule)"
    by (simp add: count_guards_def twice_count_rule_def)
  have ok: "\<forall>(rn', r') \<in> set (rule_number_to_rule ex_dup_count).
              length (element_guards r') \<le> 1 \<and> 1 \<le> length (count_guards r')"
    by (simp add: ex_dup_count_def element_guards_def count_guards_def guarded_rule_def
        twice_count_rule_def)
  note b1 = build_rule_map_decorated[OF d1]
  note b2 = build_rule_map_decorated[OF d2]
  from duplicate_guard_aborts[OF l1 m1, of ex_compound] e2 d1 b1
  have a: "sanitize (filed ex_dup) = Inl AssertionError \<and>
           find_atomtypes dup_catalogue ex_compound ''OPLS-AA'' True (fresh ex_heap)
             = Inl AssertionError"
    by simp
  from duplicate_guard_aborts[OF l2 m2, of ex_compound] c2 ok d2 b2
  have b: "sanitize (filed ex_dup_count) = Inl AssertionError \<and>
           find_atomtypes [] ex_compound ''OPLS-AA'' True ex_dup_count = Inl AssertionError"
    by auto
  from l d1 m1 e2 a b1 d2 m2 c2 b b2 show ?thesis by blast
qed

text \<open>
  C7 as stated fails: on a catalogue in which the second of three rules has two element
  decorators, the analysis and the run that calls it end with the assertion error, and
  the rule is not excluded, for with the analysis off it is in the registry.
\<close>

theorem duplicate_guard_is_fatal:
  "\<not> isl (build_rule_map ex_dup)
   \<and> isl (sanitize (projr (build_rule_map ex_dup)))
   \<and> projl (sanitize (projr (build_rule_map ex_dup))) = AssertionError
   \<and> isl (find_atomtypes dup_catalogue ex_compound ''OPLS-AA'' True (fresh ex_heap))
   \<and> bucket (projr (build_rule_map ex_dup)) (Some ''N'') (Some 1) = Some [''200'']"
  by code_simp

text \<open>
  C8, evaluated on the code. With the first and the third rule blacklisting the second,
  the graph has the one sink and nothing is flagged. With a fourth rule of the same
  pattern that blacklists nothing, the group has four rules, but the graph is built from
  blacklist edges alone: the fourth rule is not a node of it, the second rule is still
  the only sink, and nothing is flagged.
\<close>

theorem isolated_sink_not_flagged:
  "match_rules [''C''] (rule_number_to_rule ex_sinks3) []
     = Inr [((Some ''C'', [''C'']), [''1'', ''2'', ''3''])]
   \<and> \<not> isl (sanitize ex_sinks3) \<and> warnings (projr (sanitize ex_sinks3)) = []
   \<and> match_rules [''C''] (rule_number_to_rule ex_sinks4) []
     = Inr [((Some ''C'', [''C'']), [''1'', ''2'', ''3'', ''4''])]
   \<and> build_graph (rule_number_to_rule ex_sinks4) [''1'', ''2'', ''3'', ''4'']
        \<lparr>nodes = [], edges = []\<rparr>
     = Inr \<lparr>nodes = [''1'', ''2'', ''3''], edges = [(''1'', ''2''), (''3'', ''2'')]\<rparr>
   \<and> sinks_of \<lparr>nodes = [''1'', ''2'', ''3''], edges = [(''1'', ''2''), (''3'', ''2'')]\<rparr>
     = [''2'']
   \<and> \<not> isl (sanitize ex_sinks4) \<and> warnings (projr (sanitize ex_sinks4)) = []"
  by code_simp

lemma logs_refl: "logs P w w"
  unfolding logs_def by (rule exI[of _ "[]"]) simp

lemma logs_trans:
  assumes "logs P w1 w2" and "logs P w2 w3"
  shows "logs P w1 w3"
proof -
  from assms(1) obtain ms1 where 1: "warnings w2 = warnings w1 @ ms1" "\<forall>m \<in> set ms1. P m"
    unfolding logs_def by blast
  from assms(2) obtain ms2 where 2: "warnings w3 = warnings w2 @ ms2" "\<forall>m \<in> set ms2. P m"
    unfolding logs_def by blast
  show ?thesis unfolding logs_def
    by (rule exI[of _ "ms1 @ ms2"]) (use 1 2 in auto)
qed

lemma logs_same: "warnings w' = warnings w \<Longrightarrow> logs P w w'"
  unfolding logs_def by (rule exI[of _ "[]"]) simp

lemma adds_warnings_logs:
  assumes "adds_warnings Q w w'" and "\<And>m. Q m \<Longrightarrow> P m"
  shows "logs P w w'"
  using assms unfolding adds_warnings_def logs_def by auto

lemma filed_logs: "logs (\<lambda>m. \<not> about_kind k m) w (filed w)"
proof -
  from fold_register_warnings[of "rule_number_to_rule w" w] obtain ms where
    "warnings (filed w) = warnings w @ ms"
    "\<forall>m \<in> set ms. \<exists>rn. m = NoElementType rn \<or> m = NoNeighborCount rn"
    unfolding filed_def by blast
  then show ?thesis unfolding logs_def by (intro exI[of _ ms]) auto
qed

lemma filed_frame:
  "heap (filed w) = heap w \<and>
   neighbor_types_map (filed w) = neighbor_types_map w"
  by (simp add: filed_def fold_register_frame)

lemma analysis_stage:
  assumes "(if debug then sanitize w else Inr w) = Inr w'"
  shows "heap w' = heap w \<and> neighbor_types_map w' = neighbor_types_map w \<and>
         logs (\<lambda>m. \<not> about_kind k m) w w'"
proof (cases debug)
  case False
  with assms show ?thesis by (simp add: logs_refl)
next
  case True
  with assms have a: "adds_warnings graph_warning w w'" by (simp add: sanitize_adds)
  have "graph_warning m \<Longrightarrow> \<not> about_kind k m" for m by (cases m) auto
  with a have "logs (\<lambda>m. \<not> about_kind k m) w w'" by (rule adds_warnings_logs)
  with adds_warnings_frame[OF a] show ?thesis by simp
qed

lemma round_step_logs:
  assumes "round_step as w w'"
  shows "logs (\<lambda>m. \<not> about_kind ''G'' m) w w'"
proof -
  from assms obtain ms where ms: "warnings w' = warnings w @ ms"
    and c: "\<forall>m \<in> set ms. \<exists>a \<in> set as. kind (heap w a) \<noteq> ''G'' \<and>
              coverage_warning (kind (heap w a)) m"
    unfolding round_step_def by blast
  have "\<not> about_kind ''G'' m" if "m \<in> set ms" for m
  proof -
    from c that obtain a where "kind (heap w a) \<noteq> ''G''"
      "coverage_warning (kind (heap w a)) m" by blast
    then show ?thesis by (cases m) auto
  qed
  with ms show ?thesis unfolding logs_def by blast
qed

lemma rounds_stage:
  assumes "run_rounds k c w = Inr (w', n)"
  shows "(\<forall>x. grows (heap w x) (heap w' x)) \<and>
         (\<forall>x. x \<notin> set (yield_atoms c) \<or> kind (heap w x) = ''G'' \<longrightarrow>
              heap w' x = heap w x \<and> neighbor_types_map w' x = neighbor_types_map w x) \<and>
         (\<forall>x t. neighbor_types_map w x = Some t \<longrightarrow> neighbor_types_map w' x = Some t) \<and>
         logs (\<lambda>m. \<not> about_kind ''G'' m) w w'"
proof -
  from run_rounds_step[OF assms] obtain w0 where
    st: "round_step (yield_atoms c) w w0" and w': "w' = w0 \<or> w' = warn MaxIterations w0"
    by blast
  have l0: "logs (\<lambda>m. \<not> about_kind ''G'' m) w w0" using st by (rule round_step_logs)
  have "logs (\<lambda>m. \<not> about_kind ''G'' m) w0 w'"
    using w' by (auto simp: logs_refl logs_def warn_def)
  with l0 have "logs (\<lambda>m. \<not> about_kind ''G'' m) w w'" by (rule logs_trans)
  moreover have "heap w' = heap w0" "neighbor_types_map w' = neighbor_types_map w0"
    using w' by (auto simp: warn_def)
  ultimately show ?thesis using st unfolding round_step_def by simp
qed

lemma resolve_stage:
  assumes "resolve 0 (atoms_of (heap w) c) w = Inr w'"
  shows "(\<forall>x. kind (heap w x) = ''G'' \<longrightarrow> heap w' x = heap w x) \<and>
         neighbor_types_map w' = neighbor_types_map w \<and>
         logs (\<lambda>m. \<not> about_kind ''G'' m) w w'"
proof -
  note f = resolve_frame[OF assms]
  from f obtain ms where ms: "warnings w' = warnings w @ ms"
    and c: "\<forall>m \<in> set ms. \<exists>j a ts. a \<in> set (atoms_of (heap w) c) \<and>
              m = CheckTopology j (kind (heap w a)) ts"
    by blast
  have "\<not> about_kind ''G'' m" if "m \<in> set ms" for m
  proof -
    from c that obtain j a ts where "a \<in> set (atoms_of (heap w) c)"
      "m = CheckTopology j (kind (heap w a)) ts" by blast
    then show ?thesis by (simp add: atoms_of_def)
  qed
  with ms have "logs (\<lambda>m. \<not> about_kind ''G'' m) w w'" unfolding logs_def by blast
  moreover have "\<forall>x. kind (heap w x) = ''G'' \<longrightarrow> heap w' x = heap w x"
    using f by (simp add: atoms_of_def)
  ultimately show ?thesis using f by simp
qed

lemma find_atomtypes_stages:
  assumes "find_atomtypes oplsaa c forcefield debug w = Inr w'"
  obtains w1 wb w2 w3 n where
    "(if forcefield = ''OPLS-AA'' then load_rules oplsaa w else Inr w) = Inr w1"
    "build_rule_map w1 = Inr wb"
    "(if debug then sanitize wb else Inr wb) = Inr w2"
    "run_rounds max_iter c (fold prepare (yield_atoms c) w2) = Inr (w3, n)"
    "resolve 0 (atoms_of (heap w3) c) w3 = Inr w'"
  using assms by (auto simp: find_atomtypes_def split: sum.splits)

lemma load_stage:
  assumes "(if forcefield = ''OPLS-AA'' then load_rules oplsaa w else Inr w) = Inr w1"
  shows "heap w1 = heap w \<and> neighbor_types_map w1 = neighbor_types_map w \<and>
         warnings w1 = warnings w"
  using assms load_rules_frame[of oplsaa w w1] by (auto split: if_splits)

lemma find_atomtypes_cache:
  assumes "find_atomtypes oplsaa c forcefield debug w = Inr w'"
    and "neighbor_types_map w a = Some t"
  shows "neighbor_types_map w' a = Some t"
proof -
  from assms(1) obtain w1 wb w2 w3 n where
    l: "(if forcefield = ''OPLS-AA'' then load_rules oplsaa w else Inr w) = Inr w1"
    and b: "build_rule_map w1 = Inr wb"
    and s: "(if debug then sanitize wb else Inr wb) = Inr w2"
    and r: "run_rounds max_iter c (fold prepare (yield_atoms c) w2) = Inr (w3, n)"
    and f: "resolve 0 (atoms_of (heap w3) c) w3 = Inr w'"
    by (rule find_atomtypes_stages)
  from build_rule_map_Inr[OF b] have wb: "wb = filed w1" by simp
  have "neighbor_types_map w2 a = Some t"
    using load_stage[OF l] analysis_stage[OF s] filed_frame[of w1] wb assms(2) by simp
  then have "neighbor_types_map (fold prepare (yield_atoms c) w2) a = Some t"
    by (simp add: fold_prepare_frame)
  with rounds_stage[OF r] have "neighbor_types_map w3 a = Some t" by blast
  with resolve_stage[OF f] show ?thesis by simp
qed

text \<open>
  C9, as the code has it. The tally of an atom is computed from its bonds when it is
  asked for and the atom is not yet in the module-level cache, and is stored there; when
  the atom is in the cache the stored tally is the answer and nothing is computed or
  changed, whatever the bonds of the atom are by then. No run of the entry point
  removes or replaces an entry: what was cached before a run is cached, unchanged,
  after it.
\<close>

theorem tally_cached_and_never_cleared:
  "(neighbor_types_map w a = None \<longrightarrow>
      neighbor_types a w
        = (tally (heap w) (bonds (heap w a)),
           w\<lparr>neighbor_types_map :=
                (neighbor_types_map w)(a \<mapsto> tally (heap w) (bonds (heap w a)))\<rparr>))
   \<and> (neighbor_types_map w a = Some t \<longrightarrow>
        neighbor_types a w = (t, w) \<and>
        neighbor_types a (rebond a bs w) = (t, rebond a bs w))
   \<and> (neighbor_types_map w a = Some t \<and>
        find_atomtypes oplsaa c forcefield debug w = Inr w' \<longrightarrow>
        neighbor_types_map w' a = Some t)"
  using find_atomtypes_cache[of oplsaa c forcefield debug w w' a t]
  by (auto simp: neighbor_types_def rebond_def Let_def)

theorem tally_cached_and_never_cleared_witness:
  "neighbor_types_map (fresh ex_heap) 0 = None
   \<and> fst (neighbor_types 0 (fresh ex_heap)) = tally ex_heap [1]
   \<and> (\<exists>w'. find_atomtypes ex_catalogue ex_compound ''OPLS-AA'' False
               (snd (neighbor_types 0 (fresh ex_heap))) = Inr w'
          \<and> neighbor_types_map w' 0 = Some (tally ex_heap [1])
          \<and> neighbor_types 0 (rebond 0 [3] w') = (tally ex_heap [1], rebond 0 [3] w'))"
proof -
  let ?t = "tally ex_heap [1]"
  let ?w = "(fresh ex_heap)\<lparr>neighbor_types_map := (neighbor_types_map (fresh ex_heap))(0 \<mapsto> ?t)\<rparr>"
  have none: "neighbor_types_map (fresh ex_heap) 0 = None" by (simp add: fresh_def)
  have b: "bonds (heap (fresh ex_heap) 0) = [1]" "heap (fresh ex_heap) = ex_heap"
    by (simp_all add: fresh_def ex_heap_def ex_atom_def)
  from tally_cached_and_never_cleared[of "fresh ex_heap" 0] none b
  have nt: "neighbor_types 0 (fresh ex_heap) = (?t, ?w)" by simp
  have cached: "neighbor_types_map ?w 0 = Some ?t" by simp
  have "\<not> isl (find_atomtypes ex_catalogue ex_compound ''OPLS-AA'' False ?w)" by code_simp
  then obtain w' where
    run: "find_atomtypes ex_catalogue ex_compound ''OPLS-AA'' False ?w = Inr w'"
    by (cases "find_atomtypes ex_catalogue ex_compound ''OPLS-AA'' False ?w") auto
  from tally_cached_and_never_cleared[of ?w 0 ?t _ ex_catalogue ex_compound "''OPLS-AA''" False w']
       cached run
  have kept: "neighbor_types_map w' 0 = Some ?t" by blast
  from tally_cached_and_never_cleared[of w' 0 ?t "[3]"] kept
  have "neighbor_types 0 (rebond 0 [3] w') = (?t, rebond 0 [3] w')" by blast
  with none nt run kept show ?thesis by auto
qed

text \<open>
  C9 as stated fails. After a first run the carbon is bonded to another atom, of kind X,
  and the engine is run again: the tally of its present bonds has no hydrogen, yet the
  tally the second run is given still counts one, and the rule that asks for exactly one
  hydrogen neighbour fires in the second run; run from a fresh module on the same atoms
  it does not.
\<close>

theorem stale_tally_in_second_run:
  "bonds (heap stale_second 0) = [3] \<and> kind (heap stale_second 3) = ''X''
   \<and> tally (heap stale_second) (bonds (heap stale_second 0)) ''H'' = None
   \<and> fst (neighbor_types 0 stale_second) ''H'' = Some 1
   \<and> whitelist (heap (projr (find_atomtypes ex_catalogue ex_compound ''OPLS-AA'' False
                               stale_second)) 0) = Some [''135'']
   \<and> whitelist (heap (projr (find_atomtypes ex_catalogue ex_compound ''OPLS-AA'' False
                               (fresh (heap stale_second)))) 0) = Some []"
  by code_simp

text \<open>
  C4, as the code has it. A port that the compound yields is given an empty whitelist
  and an empty blacklist like every other atom, and nothing else of it changes in a
  run: no rule adds to its lists, no tally is cached for it, it gets no type, and no
  warning of the run names its kind, neither for a missing rule nor for its types.
\<close>

theorem ports_prepared_but_skipped:
  assumes "find_atomtypes oplsaa c forcefield debug w = Inr w'"
    and "a \<in> set (yield_atoms c)" and "kind (heap w a) = ''G''"
  shows "heap w' a = (heap w a)\<lparr>whitelist := Some [], blacklist := Some []\<rparr>
         \<and> neighbor_types_map w' a = neighbor_types_map w a
         \<and> logs (\<lambda>m. \<not> about_kind ''G'' m) w w'"
proof -
  let ?P = "\<lambda>m. \<not> about_kind ''G'' m"
  from assms(1) obtain w1 wb w2 w3 n where
    l: "(if forcefield = ''OPLS-AA'' then load_rules oplsaa w else Inr w) = Inr w1"
    and b: "build_rule_map w1 = Inr wb"
    and s: "(if debug then sanitize wb else Inr wb) = Inr w2"
    and r: "run_rounds max_iter c (fold prepare (yield_atoms c) w2) = Inr (w3, n)"
    and f: "resolve 0 (atoms_of (heap w3) c) w3 = Inr w'"
    by (rule find_atomtypes_stages)
  from build_rule_map_Inr[OF b] have wb: "wb = filed w1" by simp
  let ?wp = "fold prepare (yield_atoms c) w2"
  note ls = load_stage[OF l]
  note as = analysis_stage[OF s, of "''G''"]
  note bf = filed_frame[of w1]
  have h2: "heap w2 = heap w" and c2: "neighbor_types_map w2 = neighbor_types_map w"
    using ls as bf wb by simp_all
  have log2: "logs ?P w w2"
  proof -
    have "logs ?P w w1" using ls by (simp add: logs_same)
    moreover have "logs ?P w1 wb" unfolding wb by (rule filed_logs)
    moreover have "logs ?P wb w2" using as by simp
    ultimately show ?thesis by (blast intro: logs_trans)
  qed
  have hp: "heap ?wp a = (heap w a)\<lparr>whitelist := Some [], blacklist := Some []\<rparr>"
    using assms(2) h2 by (simp add: fold_prepare_heap)
  then have kp: "kind (heap ?wp a) = ''G''" using assms(3) by simp
  have logp: "logs ?P w2 ?wp" by (simp add: logs_same fold_prepare_frame)
  note rs = rounds_stage[OF r]
  have h3: "heap w3 a = heap ?wp a" and c3: "neighbor_types_map w3 a = neighbor_types_map ?wp a"
    using rs kp by simp_all
  have log3: "logs ?P ?wp w3" using rs by simp
  note fs = resolve_stage[OF f]
  have k3: "kind (heap w3 a) = ''G''" using h3 kp by simp
  have h': "heap w' a = heap w3 a" using fs k3 by simp
  have c': "neighbor_types_map w' a = neighbor_types_map w3 a" using fs by simp
  have log': "logs ?P w3 w'" using fs by simp
  have "logs ?P w w'" using log2 logp log3 log' by (blast intro: logs_trans)
  moreover have "heap w' a = (heap w a)\<lparr>whitelist := Some [], blacklist := Some []\<rparr>"
    using h' h3 hp by simp
  moreover have "neighbor_types_map w' a = neighbor_types_map w a"
    using c' c3 c2 by (simp add: fold_prepare_frame)
  ultimately show ?thesis by simp
qed

theorem ports_prepared_but_skipped_witness:
  "2 \<in> set (yield_atoms ex_compound) \<and> kind (heap (fresh ex_heap) 2) = ''G''
   \<and> (\<exists>w'. find_atomtypes ex_catalogue ex_compound ''OPLS-AA'' True (fresh ex_heap) = Inr w'
          \<and> heap w' 2 = (ex_atom ''G'' [])\<lparr>whitelist := Some [], blacklist := Some []\<rparr>
          \<and> neighbor_types_map w' 2 = None
          \<and> logs (\<lambda>m. \<not> about_kind ''G'' m) (fresh ex_heap) w')"
proof -
  let ?run = "find_atomtypes ex_catalogue ex_compound ''OPLS-AA'' True (fresh ex_heap)"
  have "\<not> isl ?run" by code_simp
  then obtain w' where run: "?run = Inr w'" by (cases ?run) auto
  have mem: "2 \<in> set (yield_atoms ex_compound)" by (simp add: ex_compound_def)
  have k: "kind (heap (fresh ex_heap) 2) = ''G''"
    by (simp add: fresh_def ex_heap_def ex_atom_def)
  have h: "heap (fresh ex_heap) 2 = ex_atom ''G'' []" by (simp add: fresh_def ex_heap_def)
  have c: "neighbor_types_map (fresh ex_heap) 2 = None" by (simp add: fresh_def)
  from ports_prepared_but_skipped[OF run mem k] h c run mem k show ?thesis by simp
qed

text \<open>
  C4 as stated fails in its first part: the port of the example has no lists before the
  run and has both, empty, after it.
\<close>

theorem port_lists_allocated:
  "kind (heap (fresh ex_heap) 2) = ''G''
   \<and> whitelist (heap (fresh ex_heap) 2) = None \<and> blacklist (heap (fresh ex_heap) 2) = None
   \<and> whitelist (heap (projr (find_atomtypes ex_catalogue ex_compound ''OPLS-AA'' True
                               (fresh ex_heap))) 2) = Some []
   \<and> blacklist (heap (projr (find_atomtypes ex_catalogue ex_compound ''OPLS-AA'' True
                               (fresh ex_heap))) 2) = Some []"
  by code_simp

text \<open>Two rules of one pattern of which neither blacklists the other leave the graph
  without a node, and the connectivity test of the graph library raises on it.\<close>

lemma unrelated_rules_null_graph:
  "isl (sanitize ex_unrelated) \<and> projl (sanitize ex_unrelated) = NetworkXPointlessConcept"
  by code_simp

end
